theory Spec2Isabelle
  imports Main "HOL-Library.Word" "HOL-Library.Multiset" "HOL-Library.AList"
begin

unbundle bit_operations_syntax

section \<open>Values shared by the whole indexer\<close>

text \<open>
  Python's \<open>bytes\<close> is a sequence of integers in \<open>0..255\<close>: a list of 8-bit words.
  Python's \<open>int\<close> is unbounded: \<open>int\<close>. Exceptions are values of \<open>py_error\<close>.
\<close>

type_synonym byte = "8 word"

datatype py_error = IndexError | ZeroDivisionError | ValueError | OverflowError
  | StructError | KeyError

text \<open>
  A generator is modelled by what its consumer observes: the values it yields, in order,
  and how it ends: \<open>None\<close> when it returns (StopIteration), \<open>Some e\<close> when it raises
  \<open>e\<close> after the yielded values.
\<close>

type_synonym 'a generator = "'a list \<times> py_error option"

section \<open>Varint codec\<close>

text \<open>
  \<open>varint_encode\<close> (enhanced_indexer.py, lines 11-21). The loop \<open>while True\<close> has no
  bound of its own, so the model is a partial function: \<open>None\<close> is "never returns".
  \<open>n >>= 7\<close> on a Python integer is the arithmetic shift \<open>drop_bit 7\<close>.
\<close>

partial_function (option) varint_encode_loop :: "int \<Rightarrow> byte list \<Rightarrow> byte list option" where
  "varint_encode_loop n out =
     (let towrite = n AND 0x7F;
          n' = drop_bit 7 n
      in if n' \<noteq> 0 then varint_encode_loop n' (out @ [word_of_int (towrite OR 0x80)])
         else Some (out @ [word_of_int towrite]))"

declare varint_encode_loop.simps [code]

definition varint_encode :: "int \<Rightarrow> byte list option" where
  "varint_encode n = varint_encode_loop n []"

text \<open>
  \<open>varint_decode_stream\<close> (lines 23-36). The inner \<open>while True\<close> reads \<open>b[i]\<close>
  without a bound check: Python raises IndexError when \<open>i\<close> reaches \<open>len(b)\<close>.
  \<open>varint_decode_value\<close> is the inner loop; it returns the value and the index after it.
\<close>

function varint_decode_value :: "byte list \<Rightarrow> nat \<Rightarrow> nat \<Rightarrow> int \<Rightarrow> py_error + (int \<times> nat)" where
  "varint_decode_value b i shift val =
     (if i < length b then
        (let byte = uint (b ! i);
             i' = i + 1;
             val' = val OR push_bit shift (byte AND 0x7F)
         in if byte AND 0x80 = 0 then Inr (val', i')
            else varint_decode_value b i' (shift + 7) val')
      else Inl IndexError)"
  by pat_completeness auto
termination
  by (relation "measure (\<lambda>(b, i, shift, val). length b - i)") auto

declare varint_decode_value.simps [simp del]

lemma varint_decode_value_advances:
  "varint_decode_value b i shift val = Inr (v, j) \<Longrightarrow> i < j \<and> j \<le> length b"
proof (induction b i shift val rule: varint_decode_value.induct)
  case (1 b i shift val)
  show ?case
  proof (cases "i < length b")
    case False
    with "1.prems" show ?thesis by (simp add: varint_decode_value.simps [of b i])
  next
    case True
    show ?thesis
    proof (cases "uint (b ! i) AND 0x80 = 0")
      case True
      with \<open>i < length b\<close> "1.prems" show ?thesis
        by (auto simp: Let_def varint_decode_value.simps [of b i])
    next
      case False
      with \<open>i < length b\<close> "1.prems"
      have "varint_decode_value b (i + 1) (shift + 7)
              (val OR push_bit shift (uint (b ! i) AND 0x7F)) = Inr (v, j)"
        by (simp add: Let_def varint_decode_value.simps [of b i])
      with "1.IH" [OF \<open>i < length b\<close> refl refl refl False] show ?thesis by simp
    qed
  qed
qed

function varint_decode_from :: "byte list \<Rightarrow> nat \<Rightarrow> int generator" where
  "varint_decode_from b i =
     (if i < length b then
        (case varint_decode_value b i 0 0 of
           Inl e \<Rightarrow> ([], Some e)
         | Inr (val, i') \<Rightarrow>
             (case varint_decode_from b i' of (vals, e) \<Rightarrow> (val # vals, e)))
      else ([], None))"
  by pat_completeness auto
termination
  by (relation "measure (\<lambda>(b, i). length b - i)")
    (auto dest!: varint_decode_value_advances)

declare varint_decode_from.simps [simp del]

definition varint_decode_stream :: "byte list \<Rightarrow> int generator" where
  "varint_decode_stream b = varint_decode_from b 0"

section \<open>Postings codec\<close>

text \<open>\<open>compress_postings\<close> (lines 38-47): the loop body, then the function.\<close>

fun compress_loop :: "int list \<Rightarrow> int \<Rightarrow> byte list \<Rightarrow> byte list option" where
  "compress_loop [] prev out = Some out"
| "compress_loop (b # bs) prev out =
     (let delta = b - prev
      in case varint_encode delta of
           None \<Rightarrow> None
         | Some enc \<Rightarrow> compress_loop bs b (out @ enc))"

definition compress_postings :: "int list \<Rightarrow> byte list option" where
  "compress_postings block_numbers =
     (if block_numbers = [] then Some [] else compress_loop block_numbers 0 [])"

text \<open>
  \<open>decompress_postings\<close> (lines 49-56) consumes the generator in a \<open>for\<close> loop: an
  exception raised by the generator leaves the function, and the partial result is lost.
\<close>

fun decompress_loop :: "int list \<Rightarrow> int \<Rightarrow> int list \<Rightarrow> int list" where
  "decompress_loop [] prev res = res"
| "decompress_loop (delta # deltas) prev res =
     (let val = prev + delta in decompress_loop deltas val (res @ [val]))"

definition decompress_postings :: "byte list \<Rightarrow> py_error + int list" where
  "decompress_postings b =
     (case varint_decode_stream b of
        (deltas, Some e) \<Rightarrow> Inl e
      | (deltas, None) \<Rightarrow> Inr (decompress_loop deltas 0 []))"

section \<open>Bloom filter\<close>

text \<open>
  \<open>class BloomFilter\<close> (lines 58-91). The fields \<open>m\<close> and \<open>k\<close> are \<open>bf_m\<close> and
  \<open>bf_k\<close> here. \<open>hashlib.sha256\<close> is a library function outside the repository: every
  function that hashes takes it as the parameter \<open>sha256\<close>, from the key's bytes to the
  digest's bytes. A key is a \<open>string\<close>: the UTF-8 bytes of the Python \<open>str\<close>, which
  \<open>key.encode('utf-8')\<close> returns (a \<open>str\<close> that UTF-8 cannot encode is not modelled).
\<close>

record BloomFilter =
  bf_m :: int
  bf_k :: int
  bitarr :: int

type_synonym digest_fn = "byte list \<Rightarrow> byte list"

definition encode_utf8 :: "string \<Rightarrow> byte list" where
  "encode_utf8 key = map of_char key"

text \<open>\<open>int.from_bytes(b, 'big')\<close> and \<open>int.to_bytes(length, 'big')\<close> (unsigned).\<close>

definition int_from_bytes_big :: "byte list \<Rightarrow> int" where
  "int_from_bytes_big bs = foldl (\<lambda>acc x. acc * 256 + uint x) 0 bs"

definition int_to_bytes_big :: "int \<Rightarrow> int \<Rightarrow> py_error + byte list" where
  "int_to_bytes_big x n =
     (if n < 0 then Inl ValueError
      else if x < 0 then Inl OverflowError
      else if 2 ^ (8 * nat n) \<le> x then Inl OverflowError
      else Inr (map (\<lambda>j. word_of_int (drop_bit (8 * j) x)) (rev [0..<nat n])))"

text \<open>
  \<open>struct.unpack_from(">Q", h, start)[0]\<close>: eight bytes at \<open>start\<close>, big-endian; a
  negative offset counts from the end; \<open>struct.error\<close> when the eight bytes do not fit.
\<close>

definition unpack_from_Q :: "byte list \<Rightarrow> int \<Rightarrow> py_error + int" where
  "unpack_from_Q h start =
     (let n = int (length h);
          off = (if start < 0 then start + n else start)
      in if off < 0 \<or> n - off < 8 then Inl StructError
         else Inr (int_from_bytes_big (take 8 (drop (nat off) h))))"

text \<open>\<open>_hashes\<close> (lines 65-71), a generator over \<open>range(self.k)\<close>.\<close>

fun hashes_loop :: "byte list \<Rightarrow> int \<Rightarrow> int list \<Rightarrow> int generator" where
  "hashes_loop h m [] = ([], None)"
| "hashes_loop h m (i # rest) =
     (if int (length h) - 7 = 0 then ([], Some ZeroDivisionError)
      else
        (let start = (i * 8) mod (int (length h) - 7)
         in case unpack_from_Q h start of
              Inl e \<Rightarrow> ([], Some e)
            | Inr val \<Rightarrow>
                if m = 0 then ([], Some ZeroDivisionError)
                else (case hashes_loop h m rest of (ps, e) \<Rightarrow> (val mod m # ps, e))))"

definition hashes :: "digest_fn \<Rightarrow> BloomFilter \<Rightarrow> byte list \<Rightarrow> int generator" where
  "hashes sha256 self key = hashes_loop (sha256 key) (bf_m self) [0..bf_k self - 1]"

text \<open>
  \<open>add\<close> (lines 73-75). \<open>1 << pos\<close> raises ValueError on a negative \<open>pos\<close>. The filter
  is mutated in place, so the model returns the filter as the call leaves it, and the
  exception that ended the call, if any.
\<close>

fun add_loop :: "int \<Rightarrow> int list \<Rightarrow> py_error option \<Rightarrow> int \<times> py_error option" where
  "add_loop bits [] e = (bits, e)"
| "add_loop bits (pos # ps) e =
     (if pos < 0 then (bits, Some ValueError)
      else add_loop (bits OR push_bit (nat pos) 1) ps e)"

definition add :: "digest_fn \<Rightarrow> BloomFilter \<Rightarrow> string \<Rightarrow> BloomFilter \<times> py_error option" where
  "add sha256 self key =
     (case hashes sha256 self (encode_utf8 key) of
        (ps, e) \<Rightarrow> (case add_loop (bitarr self) ps e of
                      (bits, e') \<Rightarrow> (self\<lparr>bitarr := bits\<rparr>, e')))"

text \<open>
  \<open>__contains__\<close> (lines 77-81): \<open>not (self.bitarr >> pos) & 1\<close> is
  \<open>not ((self.bitarr >> pos) & 1)\<close>; the first unset bit returns False before the
  generator is asked for the next position.
\<close>

fun contains_loop :: "int \<Rightarrow> int list \<Rightarrow> py_error option \<Rightarrow> py_error + bool" where
  "contains_loop bits [] e = (case e of None \<Rightarrow> Inr True | Some x \<Rightarrow> Inl x)"
| "contains_loop bits (pos # ps) e =
     (if pos < 0 then Inl ValueError
      else if drop_bit (nat pos) bits AND 1 = 0 then Inr False
      else contains_loop bits ps e)"

definition contains :: "digest_fn \<Rightarrow> BloomFilter \<Rightarrow> string \<Rightarrow> py_error + bool" where
  "contains sha256 self key =
     (case hashes sha256 self (encode_utf8 key) of
        (ps, e) \<Rightarrow> contains_loop (bitarr self) ps e)"

definition to_bytes :: "BloomFilter \<Rightarrow> py_error + byte list" where
  "to_bytes self =
     (let num_bytes = (bf_m self + 7) div 8
      in int_to_bytes_big (bitarr self) num_bytes)"

definition from_bytes :: "byte list \<Rightarrow> int \<Rightarrow> int \<Rightarrow> BloomFilter" where
  "from_bytes b m_bits k = \<lparr>bf_m = m_bits, bf_k = k, bitarr = int_from_bytes_big b\<rparr>"

section \<open>Building the index\<close>

text \<open>
  \<open>class EnhancedIndexer\<close> (lines 93-98). \<open>db_path\<close> names the SQLite file; the model
  passes the database itself. The two tables are lists of rows in insertion order; the
  table \<open>postings\<close> has the primary key \<open>(address, shard_id)\<close>.
\<close>

record EnhancedIndexer =
  shard_size :: int
  bloom_m :: int
  bloom_k :: int

record tx =
  tx_from :: string
  tx_to :: string
  tx_topics :: "string list option"

record block =
  block_number :: int
  transactions :: "tx list"

record shard_row =
  shard_id :: int
  start_block :: int
  end_block :: int
  bloom :: "byte list"

record index_db =
  shards :: "shard_row list"
  postings :: "((string \<times> int) \<times> byte list) list"

text \<open>
  The two dictionaries of \<open>build_index\<close> (lines 108-109), in insertion order:
  \<open>shard_postings[shard_id][key]\<close> is a list of block numbers.
\<close>

record scan_state =
  shard_postings :: "(int \<times> (string \<times> int list) list) list"
  shard_blooms :: "(int \<times> BloomFilter) list"

text \<open>A \<open>for\<close> loop whose body may raise: the first exception ends the loop.\<close>

fun fold_err :: "('a \<Rightarrow> 's \<Rightarrow> py_error + 's) \<Rightarrow> 'a list \<Rightarrow> 's \<Rightarrow> py_error + 's" where
  "fold_err f [] s = Inr s"
| "fold_err f (x # xs) s = (case f x s of Inl e \<Rightarrow> Inl e | Inr s' \<Rightarrow> fold_err f xs s')"

text \<open>
  The body shared by the two inner loops (lines 117-118 and 121-122):
  \<open>shard_postings[shard_id][key].append(blknum); shard_blooms[shard_id].add(key)\<close>.
\<close>

definition index_key :: "digest_fn \<Rightarrow> int \<Rightarrow> int \<Rightarrow> string \<Rightarrow> scan_state \<Rightarrow> py_error + scan_state" where
  "index_key sha256 sid blknum key st =
     (let sp = AList.map_default sid [(key, [blknum])]
                 (AList.map_default key [blknum] (\<lambda>blocks. blocks @ [blknum]))
                 (shard_postings st)
      in case map_of (shard_blooms st) sid of
           None \<Rightarrow> Inl KeyError
         | Some bf \<Rightarrow>
             (case add sha256 bf key of
                (bf', Some e) \<Rightarrow> Inl e
              | (bf', None) \<Rightarrow>
                  Inr \<lparr>shard_postings = sp,
                       shard_blooms = AList.update sid bf' (shard_blooms st)\<rparr>))"

text \<open>
  The keys of one transaction in the order the loops visit them: \<open>from\<close>, \<open>to\<close>, then
  \<open>f"topic:{topic}"\<close> for each of \<open>tx.get("topics", [])\<close>.
\<close>

definition tx_keys :: "tx \<Rightarrow> string list" where
  "tx_keys t =
     [tx_from t, tx_to t] @
     map (\<lambda>topic. ''topic:'' @ topic) (case tx_topics t of None \<Rightarrow> [] | Some ts \<Rightarrow> ts)"

definition index_tx :: "digest_fn \<Rightarrow> int \<Rightarrow> int \<Rightarrow> tx \<Rightarrow> scan_state \<Rightarrow> py_error + scan_state" where
  "index_tx sha256 sid blknum t st = fold_err (index_key sha256 sid blknum) (tx_keys t) st"

definition index_block :: "digest_fn \<Rightarrow> EnhancedIndexer \<Rightarrow> block \<Rightarrow> scan_state \<Rightarrow> py_error + scan_state" where
  "index_block sha256 self blk st =
     (let blknum = block_number blk
      in if shard_size self = 0 then Inl ZeroDivisionError
         else
           (let sid = blknum div shard_size self;
                st' = (if map_of (shard_blooms st) sid = None
                       then st\<lparr>shard_blooms := shard_blooms st @
                              [(sid, \<lparr>bf_m = bloom_m self, bf_k = bloom_k self, bitarr = 0\<rparr>)]\<rparr>
                       else st)
            in fold_err (index_tx sha256 sid blknum) (transactions blk) st'))"

text \<open>
  The second half of \<open>build_index\<close> (lines 123-133). \<open>compress_postings\<close> may never
  return, so the result is an option: \<open>None\<close> is "never returns".
\<close>

fun flush_postings ::
  "int \<Rightarrow> (string \<times> int list) list \<Rightarrow> ((string \<times> int) \<times> byte list) list
     \<Rightarrow> ((string \<times> int) \<times> byte list) list option" where
  "flush_postings sid [] tbl = Some tbl"
| "flush_postings sid ((addr, blocks) # rest) tbl =
     (let blocks_sorted = sorted_list_of_set (set blocks)
      in case compress_postings blocks_sorted of
           None \<Rightarrow> None
         | Some comp' \<Rightarrow> flush_postings sid rest (tbl @ [((addr, sid), comp')]))"

fun flush_shards ::
  "EnhancedIndexer \<Rightarrow> (int \<times> BloomFilter) list \<Rightarrow> (int \<times> (string \<times> int list) list) list
     \<Rightarrow> index_db \<Rightarrow> (py_error + index_db) option" where
  "flush_shards self blooms [] db = Some (Inr db)"
| "flush_shards self blooms ((sid, posts) # rest) db =
     (let start_blk = sid * shard_size self;
          end_blk = start_blk + shard_size self - 1
      in case map_of blooms sid of
           None \<Rightarrow> Some (Inl KeyError)
         | Some bf \<Rightarrow>
             (case to_bytes bf of
                Inl e \<Rightarrow> Some (Inl e)
              | Inr bloom_bytes \<Rightarrow>
                  (let row = \<lparr>shard_id = sid, start_block = start_blk, end_block = end_blk,
                                bloom = bloom_bytes\<rparr>
                   in case flush_postings sid posts (postings db) of
                        None \<Rightarrow> None
                      | Some tbl \<Rightarrow>
                          flush_shards self blooms rest
                            \<lparr>shards = shards db @ [row], postings = tbl\<rparr>)))"

text \<open>
  \<open>build_index\<close> (lines 100-135): \<open>None\<close> when it never returns, \<open>Some (Inl e)\<close> when
  it raises \<open>e\<close>, \<open>Some (Inr db)\<close> when it returns and leaves the database \<open>db\<close>.
\<close>

definition build_index :: "digest_fn \<Rightarrow> EnhancedIndexer \<Rightarrow> block list \<Rightarrow> (py_error + index_db) option" where
  "build_index sha256 self chain =
     (case fold_err (index_block sha256 self) chain \<lparr>shard_postings = [], shard_blooms = []\<rparr> of
        Inl e \<Rightarrow> Some (Inl e)
      | Inr st \<Rightarrow>
          flush_shards self (shard_blooms st) (shard_postings st) \<lparr>shards = [], postings = []\<rparr>)"

section \<open>Queries\<close>

text \<open>
  \<open>postings_for\<close> (lines 137-153). The first loop collects the candidate shards from the
  rows of \<open>SELECT shard_id, bloom FROM shards\<close>, taken in the order the list
  \<open>shards db\<close> gives them; the second fetches and decompresses.
\<close>

fun candidates_loop :: "digest_fn \<Rightarrow> EnhancedIndexer \<Rightarrow> string \<Rightarrow> shard_row list \<Rightarrow> int list \<Rightarrow> py_error + int list" where
  "candidates_loop sha256 self key [] candidates = Inr candidates"
| "candidates_loop sha256 self key (row # rows) candidates =
     (let bf = from_bytes (bloom row) (bloom_m self) (bloom_k self)
      in case contains sha256 bf key of
           Inl e \<Rightarrow> Inl e
         | Inr True \<Rightarrow> candidates_loop sha256 self key rows (candidates @ [shard_id row])
         | Inr False \<Rightarrow> candidates_loop sha256 self key rows candidates)"

fun fetch_loop :: "((string \<times> int) \<times> byte list) list \<Rightarrow> string \<Rightarrow> int list \<Rightarrow> int list \<Rightarrow> py_error + int list" where
  "fetch_loop tbl key [] res = Inr res"
| "fetch_loop tbl key (sid # sids) res =
     (case map_of tbl (key, sid) of
        None \<Rightarrow> fetch_loop tbl key sids res
      | Some blob \<Rightarrow>
          (case decompress_postings blob of
             Inl e \<Rightarrow> Inl e
           | Inr blocks \<Rightarrow> fetch_loop tbl key sids (res @ blocks)))"

definition postings_for :: "digest_fn \<Rightarrow> EnhancedIndexer \<Rightarrow> index_db \<Rightarrow> string \<Rightarrow> py_error + int list" where
  "postings_for sha256 self db key =
     (case candidates_loop sha256 self key (shards db) [] of
        Inl e \<Rightarrow> Inl e
      | Inr candidates \<Rightarrow>
          (case fetch_loop (postings db) key candidates [] of
             Inl e \<Rightarrow> Inl e
           | Inr res \<Rightarrow> Inr (sort res)))"

text \<open>\<open>intersect_sorted\<close> (lines 155-166).\<close>

function intersect_loop :: "int list \<Rightarrow> int list \<Rightarrow> nat \<Rightarrow> nat \<Rightarrow> int list \<Rightarrow> int list" where
  "intersect_loop a b i j out =
     (if i < length a \<and> j < length b then
        (if a ! i = b ! j then intersect_loop a b (i + 1) (j + 1) (out @ [a ! i])
         else if a ! i < b ! j then intersect_loop a b (i + 1) j out
         else intersect_loop a b i (j + 1) out)
      else out)"
  by pat_completeness auto
termination
  by (relation "measure (\<lambda>(a, b, i, j, out). (length a - i) + (length b - j))") auto

declare intersect_loop.simps [simp del]

definition intersect_sorted :: "int list \<Rightarrow> int list \<Rightarrow> int list" where
  "intersect_sorted a b = intersect_loop a b 0 0 []"

text \<open>
  \<open>merge_sorted\<close> (lines 168-187): the two-pointer loop, the two loops that copy what
  is left of either list, and the pass that drops an element equal to the one before it
  (\<open>prev\<close> starts as \<open>None\<close>, which no integer equals).
\<close>

function merge_loop :: "int list \<Rightarrow> int list \<Rightarrow> nat \<Rightarrow> nat \<Rightarrow> int list \<Rightarrow> nat \<times> nat \<times> int list" where
  "merge_loop a b i j out =
     (if i < length a \<and> j < length b then
        (if a ! i = b ! j then merge_loop a b (i + 1) (j + 1) (out @ [a ! i])
         else if a ! i < b ! j then merge_loop a b (i + 1) j (out @ [a ! i])
         else merge_loop a b i (j + 1) (out @ [b ! j]))
      else (i, j, out))"
  by pat_completeness auto
termination
  by (relation "measure (\<lambda>(a, b, i, j, out). (length a - i) + (length b - j))") auto

declare merge_loop.simps [simp del]

function copy_rest :: "int list \<Rightarrow> nat \<Rightarrow> int list \<Rightarrow> int list" where
  "copy_rest a i out = (if i < length a then copy_rest a (i + 1) (out @ [a ! i]) else out)"
  by pat_completeness auto
termination
  by (relation "measure (\<lambda>(a, i, out). length a - i)") auto

declare copy_rest.simps [simp del]

fun dedup_loop :: "int list \<Rightarrow> int option \<Rightarrow> int list \<Rightarrow> int list" where
  "dedup_loop [] prev res = res"
| "dedup_loop (x # xs) prev res =
     (if Some x \<noteq> prev then dedup_loop xs (Some x) (res @ [x])
      else dedup_loop xs prev res)"

definition merge_sorted :: "int list \<Rightarrow> int list \<Rightarrow> int list" where
  "merge_sorted a b =
     (case merge_loop a b 0 0 [] of
        (i, j, out) \<Rightarrow> dedup_loop (copy_rest b j (copy_rest a i out)) None [])"

text \<open>
  \<open>boolean_query\<close> (lines 189-209). \<open>required\<close> is \<open>None\<close> or a list; the tests
  \<open>any_list\<close> and \<open>not any_list\<close> are the tests whether the list \<open>any_list\<close> is empty.
\<close>

fun lists_loop :: "digest_fn \<Rightarrow> EnhancedIndexer \<Rightarrow> index_db \<Rightarrow> string list \<Rightarrow> int list list \<Rightarrow> py_error + int list list" where
  "lists_loop sha256 self db [] lists' = Inr lists'"
| "lists_loop sha256 self db (k # ks) lists' =
     (case postings_for sha256 self db k of
        Inl e \<Rightarrow> Inl e
      | Inr p \<Rightarrow> lists_loop sha256 self db ks (lists' @ [p]))"

fun any_loop :: "digest_fn \<Rightarrow> EnhancedIndexer \<Rightarrow> index_db \<Rightarrow> string list \<Rightarrow> int list \<Rightarrow> py_error + int list" where
  "any_loop sha256 self db [] any_list = Inr any_list"
| "any_loop sha256 self db (k # ks) any_list =
     (case postings_for sha256 self db k of
        Inl e \<Rightarrow> Inl e
      | Inr p \<Rightarrow> any_loop sha256 self db ks (merge_sorted any_list p))"

definition boolean_query ::
  "digest_fn \<Rightarrow> EnhancedIndexer \<Rightarrow> index_db \<Rightarrow> string list \<Rightarrow> string list \<Rightarrow> py_error + int list" where
  "boolean_query sha256 self db must_have any_of =
     (case lists_loop sha256 self db must_have [] of
        Inl e \<Rightarrow> Inl e
      | Inr lists' \<Rightarrow>
          (let required = (case lists' of
                             [] \<Rightarrow> None
                           | cur # rest \<Rightarrow> Some (foldl intersect_sorted cur rest))
           in case any_loop sha256 self db any_of [] of
                Inl e \<Rightarrow> Inl e
              | Inr any_list \<Rightarrow>
                  if required = None \<and> any_list \<noteq> [] then Inr any_list
                  else if required = None \<and> any_list = [] then Inr []
                  else if required \<noteq> None \<and> any_list = [] then Inr (the required)
                  else Inr (intersect_sorted (the required) any_list)))"

section \<open>Auxiliary definitions\<close>

text \<open>
  Functions and predicates that only the proofs use: none of them is part of the
  indexer.
\<close>

text \<open>
  \<open>varint_bytes n\<close> is the byte string \<open>varint_encode\<close> produces for a non-negative
  \<open>n\<close>, as a total function: the proofs about decoding go through it.
\<close>

function varint_bytes :: "int \<Rightarrow> byte list" where
  "varint_bytes n =
     (if drop_bit 7 n \<noteq> 0 \<and> 0 < n
      then word_of_int (n AND 0x7F OR 0x80) # varint_bytes (drop_bit 7 n)
      else [word_of_int (n AND 0x7F)])"
  by pat_completeness auto
termination
  by (relation "measure nat") (auto simp: drop_bit_eq_div intro: int_div_less_self)

declare varint_bytes.simps [simp del]

text \<open>
  \<open>compress_deltas block_numbers prev\<close> lists the arguments that the loop of
  \<open>compress_postings\<close> passes to \<open>varint_encode\<close>, in order.
\<close>

fun compress_deltas :: "int list \<Rightarrow> int \<Rightarrow> int list" where
  "compress_deltas [] prev = []"
| "compress_deltas (b # bs) prev = (b - prev) # compress_deltas bs b"

text \<open>
  \<open>add_all sha256 bf keys\<close> is the filter after \<open>add\<close> has been called on it for each
  of \<open>keys\<close> in turn, whether or not a call raised.
\<close>

fun add_all :: "digest_fn \<Rightarrow> BloomFilter \<Rightarrow> string list \<Rightarrow> BloomFilter" where
  "add_all sha256 bf [] = bf"
| "add_all sha256 bf (key # keys) = add_all sha256 (fst (add sha256 bf key)) keys"

text \<open>
  The two loops as recursions over what is left of either list: \<open>inter_lists\<close> for
  \<open>intersect_loop\<close>, \<open>merge_lists\<close> for \<open>merge_loop\<close> followed by the two copying
  loops.
\<close>

fun inter_lists :: "int list \<Rightarrow> int list \<Rightarrow> int list" where
  "inter_lists [] ys = []"
| "inter_lists (x # xs) [] = []"
| "inter_lists (x # xs) (y # ys) =
     (if x = y then x # inter_lists xs ys
      else if x < y then inter_lists xs (y # ys)
      else inter_lists (x # xs) ys)"

fun merge_lists :: "int list \<Rightarrow> int list \<Rightarrow> int list" where
  "merge_lists [] ys = ys"
| "merge_lists (x # xs) [] = x # xs"
| "merge_lists (x # xs) (y # ys) =
     (if x = y then x # merge_lists xs ys
      else if x < y then x # merge_lists xs (y # ys)
      else y # merge_lists (x # xs) ys)"

text \<open>
  The body of the first loop of \<open>postings_for\<close>: the membership test on one shard row.
\<close>

definition shard_test :: "digest_fn \<Rightarrow> EnhancedIndexer \<Rightarrow> string \<Rightarrow> shard_row \<Rightarrow> py_error + bool" where
  "shard_test sha256 self key row =
     contains sha256 (from_bytes (bloom row) (bloom_m self) (bloom_k self)) key"

text \<open>
  The body of the second loop: what one candidate shard contributes, and the same with
  an exception read as the empty list.
\<close>

definition shard_fetch :: "((string \<times> int) \<times> byte list) list \<Rightarrow> string \<Rightarrow> int \<Rightarrow> py_error + int list" where
  "shard_fetch tbl key sid =
     (case map_of tbl (key, sid) of None \<Rightarrow> Inr [] | Some blob \<Rightarrow> decompress_postings blob)"

definition shard_blocks :: "((string \<times> int) \<times> byte list) list \<Rightarrow> string \<Rightarrow> int \<Rightarrow> int list" where
  "shard_blocks tbl key sid = (case shard_fetch tbl key sid of Inl e \<Rightarrow> [] | Inr blocks \<Rightarrow> blocks)"

text \<open>
  The keys that occur in a batch: \<open>from\<close>, \<open>to\<close> and the prefixed topics of every
  transaction of every block.
\<close>

definition batch_keys :: "block list \<Rightarrow> string set" where
  "batch_keys chain = (\<Union>blk\<in>set chain. \<Union>t\<in>set (transactions blk). set (tx_keys t))"

text \<open>
  The invariant of the first loop of \<open>build_index\<close>, for keys among \<open>K\<close>: the shard
  ids of \<open>shard_postings\<close> are distinct; every pending list belongs to a key of \<open>K\<close>
  and holds block numbers of its own shard only; every shard with postings has a filter,
  with bit 0 set in the configurations \<open>0 < k\<close>, \<open>m \<le> 0\<close>; every filter has the
  indexer's parameters.
\<close>

definition scan_inv :: "EnhancedIndexer \<Rightarrow> string set \<Rightarrow> scan_state \<Rightarrow> bool" where
  "scan_inv self K st \<longleftrightarrow>
     distinct (map fst (shard_postings st)) \<and>
     (\<forall>sid posts key blocks.
        (sid, posts) \<in> set (shard_postings st) \<longrightarrow> (key, blocks) \<in> set posts \<longrightarrow>
        key \<in> K \<and> (\<forall>b\<in>set blocks. b div shard_size self = sid)) \<and>
     (\<forall>sid posts.
        (sid, posts) \<in> set (shard_postings st) \<longrightarrow>
        (\<exists>bf. map_of (shard_blooms st) sid = Some bf \<and>
              (0 < bloom_k self \<and> bloom_m self \<le> 0 \<longrightarrow> bit (bitarr bf) 0))) \<and>
     (\<forall>sid bf.
        map_of (shard_blooms st) sid = Some bf \<longrightarrow>
        bf_m bf = bloom_m self \<and> bf_k bf = bloom_k self)"

text \<open>
  Every block number pending in \<open>shard_postings\<close> is non-negative.
\<close>

definition pending_nonneg :: "scan_state \<Rightarrow> bool" where
  "pending_nonneg st \<longleftrightarrow>
     (\<forall>sid posts key blocks.
        (sid, posts) \<in> set (shard_postings st) \<longrightarrow> (key, blocks) \<in> set posts \<longrightarrow>
        (\<forall>b\<in>set blocks. 0 \<le> b))"

text \<open>
  \<open>boolean_query_spec\<close> follows the words of the specification, not the code: the four
  cases are told apart by whether the key lists \<open>must_have\<close> and \<open>any_of\<close> are empty.
  The postings are collected by the loops of the code.
\<close>

definition boolean_query_spec ::
  "digest_fn \<Rightarrow> EnhancedIndexer \<Rightarrow> index_db \<Rightarrow> string list \<Rightarrow> string list \<Rightarrow> py_error + int list" where
  "boolean_query_spec sha256 self db must_have any_of =
     (case lists_loop sha256 self db must_have [] of
        Inl e \<Rightarrow> Inl e
      | Inr lists' \<Rightarrow>
          (case any_loop sha256 self db any_of [] of
             Inl e \<Rightarrow> Inl e
           | Inr optional \<Rightarrow>
               (case lists' of
                  [] \<Rightarrow> if any_of = [] then Inr [] else Inr optional
                | cur # rest \<Rightarrow>
                    (let required = foldl intersect_sorted cur rest
                     in if any_of = [] then Inr required
                        else Inr (intersect_sorted required optional)))))"

text \<open>
  A stand-in for SHA-256 with 32-byte digests (the key's first 32 bytes, left-padded with
  zeros), used only to run the model on concrete inputs.
\<close>

definition demo_digest :: digest_fn where
  "demo_digest key = replicate (32 - length (take 32 key)) 0 @ take 32 key"

text \<open>
  An indexer with 64 Bloom bits, and three blocks in two shards. \<open>demo_db\<close> is the
  database \<open>build_index\<close> leaves for them (lemma \<open>demo_build\<close>).
\<close>

definition demo_indexer :: EnhancedIndexer where
  "demo_indexer = \<lparr>shard_size = 100, bloom_m = 64, bloom_k = 6\<rparr>"

definition demo_chain :: "block list" where
  "demo_chain =
     [\<lparr>block_number = 0,
       transactions = [\<lparr>tx_from = ''A'', tx_to = ''B'', tx_topics = None\<rparr>]\<rparr>,
      \<lparr>block_number = 1,
       transactions = [\<lparr>tx_from = ''D'', tx_to = ''E'', tx_topics = Some [''5'']\<rparr>]\<rparr>,
      \<lparr>block_number = 202,
       transactions = [\<lparr>tx_from = ''A'', tx_to = ''C'', tx_topics = Some [''5'']\<rparr>]\<rparr>]"

definition demo_db :: index_db where
  "demo_db =
     \<lparr>shards =
        [\<lparr>shard_id = 0, start_block = 0, end_block = 99, bloom = [0, 32, 0, 0, 0, 0, 0, 55]\<rparr>,
         \<lparr>shard_id = 2, start_block = 200, end_block = 299, bloom = [0, 32, 0, 0, 0, 0, 0, 11]\<rparr>],
      postings =
        [((''A'', 0), [0]), ((''B'', 0), [0]), ((''D'', 0), [1]), ((''E'', 0), [1]),
         ((''topic:5'', 0), [1]), ((''A'', 2), [202, 1]), ((''C'', 2), [202, 1]),
         ((''topic:5'', 2), [202, 1])]\<rparr>"

section \<open>Proofs: the varint and postings codecs\<close>

lemma varint_encode_loop_bytes:
  "0 \<le> n \<Longrightarrow> varint_encode_loop n out = Some (out @ varint_bytes n)"
proof (induction n arbitrary: out rule: varint_bytes.induct)
  case (1 n)
  show ?case
  proof (cases "drop_bit 7 n \<noteq> 0")
    case True
    with "1.prems" have pos: "0 < n" by (cases "n = 0") auto
    have "0 \<le> drop_bit 7 n" using "1.prems" by simp
    from "1.IH" [OF _ this] True pos
    have "varint_encode_loop (drop_bit 7 n) (out @ [word_of_int (n AND 0x7F OR 0x80)])
          = Some ((out @ [word_of_int (n AND 0x7F OR 0x80)]) @ varint_bytes (drop_bit 7 n))"
      by simp
    with True pos show ?thesis
      by (subst varint_encode_loop.simps, subst varint_bytes.simps) (simp add: Let_def)
  next
    case False
    then show ?thesis
      by (subst varint_encode_loop.simps, subst varint_bytes.simps) (simp add: Let_def)
  qed
qed

lemma varint_encode_negative: "n < 0 \<Longrightarrow> varint_encode_loop n out = None"
proof -
  have "0 \<le> n" if "varint_encode_loop n out = Some y" for y
  proof (rule varint_encode_loop.raw_induct [where P = "\<lambda>n out y. 0 \<le> n", OF _ that])
    fix f :: "int \<Rightarrow> byte list \<Rightarrow> byte list option" and n out y
    assume IH: "\<And>a b y. f a b = Some y \<Longrightarrow> 0 \<le> a"
      and body: "(let towrite = n AND 0x7F; n' = drop_bit 7 n
          in if n' \<noteq> 0 then f n' (out @ [word_of_int (towrite OR 0x80)])
             else Some (out @ [word_of_int towrite])) = Some y"
    show "0 \<le> n"
    proof (cases "drop_bit 7 n = 0")
      case True
      then have "n div 128 = 0" by (simp add: drop_bit_eq_div)
      then show ?thesis by (auto simp: zdiv_eq_0_iff)
    next
      case False
      with body have "f (drop_bit 7 n) (out @ [word_of_int (n AND 0x7F OR 0x80)]) = Some y"
        by (simp add: Let_def)
      from IH [OF this] show ?thesis by simp
    qed
  qed
  then show "n < 0 \<Longrightarrow> varint_encode_loop n out = None"
    by (cases "varint_encode_loop n out") auto
qed

lemma bit_127_iff: "bit (127::int) n \<longleftrightarrow> n < 7"
proof -
  have "(127::int) = mask 7" by (simp add: mask_eq_exp_minus_1)
  then show ?thesis by (simp only: bit_mask_iff) simp
qed

lemma bit_128_iff: "bit (128::int) n \<longleftrightarrow> n = 7"
proof -
  have "(128::int) = 2 ^ 7" by simp
  then show ?thesis by (simp only: bit_exp_iff) auto
qed

lemma byte_low7: "uint (word_of_int (x AND 0x7F) :: byte) AND 0x7F = x AND 0x7F"
  by (rule bit_eqI) (auto simp: bit_simps bit_127_iff)

lemma byte_low7_cont: "uint (word_of_int (x AND 0x7F OR 0x80) :: byte) AND 0x7F = x AND 0x7F"
  by (rule bit_eqI) (auto simp: bit_simps bit_127_iff bit_128_iff)

lemma byte_stop: "uint (word_of_int (x AND 0x7F) :: byte) AND 0x80 = 0"
  by (rule bit_eqI) (auto simp: bit_simps bit_127_iff bit_128_iff)

lemma byte_cont: "uint (word_of_int (x AND 0x7F OR 0x80) :: byte) AND 0x80 \<noteq> 0"
proof
  assume "uint (word_of_int (x AND 0x7F OR 0x80) :: byte) AND 0x80 = 0"
  then have "bit (uint (word_of_int (x AND 0x7F OR 0x80) :: byte) AND 0x80) 7 = bit (0::int) 7"
    by simp
  then show False by (simp add: bit_simps bit_127_iff bit_128_iff)
qed

lemma split7: "(x AND 0x7F) OR push_bit 7 (drop_bit 7 x) = (x::int)"
proof (rule bit_eqI)
  fix n
  show "bit ((x AND 0x7F) OR push_bit 7 (drop_bit 7 x)) n = bit x n"
    by (cases "n < 7") (auto simp: bit_simps bit_127_iff)
qed

lemma decode_value_step:
  "i < length b \<Longrightarrow>
   varint_decode_value b i shift val =
     (if uint (b ! i) AND 0x80 = 0
      then Inr (val OR push_bit shift (uint (b ! i) AND 0x7F), i + 1)
      else varint_decode_value b (i + 1) (shift + 7)
             (val OR push_bit shift (uint (b ! i) AND 0x7F)))"
  by (subst varint_decode_value.simps) (simp add: Let_def)

lemma decode_value_bytes:
  "0 \<le> n \<Longrightarrow>
   varint_decode_value (pre @ varint_bytes n @ rest) (length pre) shift val
     = Inr (val OR push_bit shift n, length pre + length (varint_bytes n))"
proof (induction n arbitrary: pre shift val rule: varint_bytes.induct)
  case (1 n)
  show ?case
  proof (cases "drop_bit 7 n \<noteq> 0 \<and> 0 < n")
    case False
    then have small: "drop_bit 7 n = 0" using "1.prems" by (cases "n = 0") auto
    define c :: byte where "c = word_of_int (n AND 0x7F)"
    have vb: "varint_bytes n = [c]"
      using False unfolding c_def by (subst varint_bytes.simps) auto
    have n_eq: "n AND 0x7F = n" using split7 [of n] small by simp
    have "uint c AND 0x7F = n AND 0x7F" unfolding c_def by (rule byte_low7)
    then have low: "uint c AND 0x7F = n" by (simp only: n_eq)
    have stop: "uint c AND 0x80 = 0" unfolding c_def by (rule byte_stop)
    have "varint_decode_value (pre @ c # rest) (length pre) shift val
          = Inr (val OR push_bit shift (uint c AND 0x7F), length pre + 1)"
      using stop by (subst decode_value_step) (simp_all add: nth_append)
    then show ?thesis
      unfolding vb low by simp
  next
    case True
    define c :: byte where "c = word_of_int (n AND 0x7F OR 0x80)"
    have vb: "varint_bytes n = c # varint_bytes (drop_bit 7 n)"
      using True unfolding c_def by (subst varint_bytes.simps) simp
    have nn: "0 \<le> drop_bit 7 n" using "1.prems" by simp
    have low: "uint c AND 0x7F = n AND 0x7F" unfolding c_def by (rule byte_low7_cont)
    have cont: "uint c AND 0x80 \<noteq> 0" unfolding c_def by (rule byte_cont)
    have IH: "varint_decode_value ((pre @ [c]) @ varint_bytes (drop_bit 7 n) @ rest)
                (length (pre @ [c])) (shift + 7) (val OR push_bit shift (n AND 0x7F))
              = Inr ((val OR push_bit shift (n AND 0x7F)) OR push_bit (shift + 7) (drop_bit 7 n),
                     length (pre @ [c]) + length (varint_bytes (drop_bit 7 n)))"
      by (rule "1.IH" [OF True nn])
    have join: "(val OR push_bit shift (n AND 0x7F)) OR push_bit (shift + 7) (drop_bit 7 n)
                = val OR push_bit shift n"
    proof -
      have "push_bit (shift + 7) (drop_bit 7 n) = push_bit shift (push_bit 7 (drop_bit 7 n))"
        by (simp add: push_bit_push_bit add.commute)
      then have "push_bit shift (n AND 0x7F) OR push_bit (shift + 7) (drop_bit 7 n)
            = push_bit shift ((n AND 0x7F) OR push_bit 7 (drop_bit 7 n))"
        by (simp only: push_bit_or)
      then have "push_bit shift (n AND 0x7F) OR push_bit (shift + 7) (drop_bit 7 n)
            = push_bit shift n"
        by (simp only: split7)
      then show ?thesis by (simp only: or.assoc)
    qed
    have "varint_decode_value (pre @ c # varint_bytes (drop_bit 7 n) @ rest) (length pre) shift val
          = varint_decode_value (pre @ c # varint_bytes (drop_bit 7 n) @ rest) (length pre + 1)
              (shift + 7) (val OR push_bit shift (uint c AND 0x7F))"
      using cont by (subst decode_value_step) (simp_all add: nth_append)
    also have "\<dots> = Inr (val OR push_bit shift n,
                     length (pre @ [c]) + length (varint_bytes (drop_bit 7 n)))"
      using IH unfolding low join by simp
    finally show ?thesis
      unfolding vb by simp
  qed
qed

lemma decode_from_bytes:
  "\<forall>n\<in>set ns. 0 \<le> n \<Longrightarrow>
   varint_decode_from (pre @ concat (map varint_bytes ns)) (length pre) = (ns, None)"
proof (induction ns arbitrary: pre)
  case Nil
  show ?case by (subst varint_decode_from.simps) simp
next
  case (Cons n ns)
  have ne: "varint_bytes n \<noteq> []" by (subst varint_bytes.simps) simp
  have n0: "0 \<le> n" using Cons.prems by simp
  have v: "varint_decode_value (pre @ varint_bytes n @ concat (map varint_bytes ns)) (length pre) 0 0
           = Inr (n, length pre + length (varint_bytes n))"
    using decode_value_bytes [OF n0, of pre "concat (map varint_bytes ns)" 0 0] by simp
  have r: "varint_decode_from ((pre @ varint_bytes n) @ concat (map varint_bytes ns))
             (length (pre @ varint_bytes n)) = (ns, None)"
    using Cons.prems by (intro Cons.IH) simp
  show ?case
    using ne v r by (subst varint_decode_from.simps) simp
qed

lemma varint_encode_bytes: "0 \<le> n \<Longrightarrow> varint_encode n = Some (varint_bytes n)"
  by (simp add: varint_encode_def varint_encode_loop_bytes)

lemma compress_loop_bytes:
  "\<forall>d\<in>set (compress_deltas L prev). 0 \<le> d \<Longrightarrow>
   compress_loop L prev out = Some (out @ concat (map varint_bytes (compress_deltas L prev)))"
  by (induction L arbitrary: prev out) (simp_all add: varint_encode_bytes)

lemma compress_deltas_nonneg:
  "sorted L \<Longrightarrow> \<forall>x\<in>set L. prev \<le> x \<Longrightarrow> \<forall>d\<in>set (compress_deltas L prev). 0 \<le> d"
  by (induction L arbitrary: prev) auto

lemma decompress_loop_deltas:
  "decompress_loop (compress_deltas L prev) prev res = res @ L"
  by (induction L arbitrary: prev res) simp_all

lemma decode_stream_bytes:
  "\<forall>n\<in>set ns. 0 \<le> n \<Longrightarrow> varint_decode_stream (concat (map varint_bytes ns)) = (ns, None)"
  using decode_from_bytes [of ns "[]"] by (simp add: varint_decode_stream_def)

lemma compress_decompress:
  assumes "sorted L" "\<forall>x\<in>set L. 0 \<le> x"
  shows "compress_postings L = Some (concat (map varint_bytes (compress_deltas L 0)))"
    and "decompress_postings (concat (map varint_bytes (compress_deltas L 0))) = Inr L"
proof -
  have nn: "\<forall>d\<in>set (compress_deltas L 0). 0 \<le> d"
    using assms by (rule compress_deltas_nonneg)
  show "compress_postings L = Some (concat (map varint_bytes (compress_deltas L 0)))"
    using compress_loop_bytes [OF nn, of "[]"] by (simp add: compress_postings_def)
  show "decompress_postings (concat (map varint_bytes (compress_deltas L 0))) = Inr L"
    by (simp add: decompress_postings_def decode_stream_bytes [OF nn] decompress_loop_deltas)
qed

lemma decode_value_error: "varint_decode_value b i shift val = Inl e \<Longrightarrow> e = IndexError"
proof (induction b i shift val rule: varint_decode_value.induct)
  case (1 b i shift val)
  show ?case
  proof (cases "i < length b")
    case False
    with "1.prems" show ?thesis by (simp add: varint_decode_value.simps [of b i])
  next
    case True
    show ?thesis
    proof (cases "uint (b ! i) AND 0x80 = 0")
      case stop: True
      with True "1.prems" show ?thesis by (simp add: decode_value_step)
    next
      case False
      with True "1.prems"
      have "varint_decode_value b (i + 1) (shift + 7)
              (val OR push_bit shift (uint (b ! i) AND 0x7F)) = Inl e"
        by (simp add: decode_value_step)
      with "1.IH" [OF True refl refl refl False] show ?thesis by simp
    qed
  qed
qed

lemma decode_value_ends_on_stop:
  "varint_decode_value b i shift val = Inr (v, j) \<Longrightarrow> uint (b ! (j - 1)) AND 0x80 = 0"
proof (induction b i shift val rule: varint_decode_value.induct)
  case (1 b i shift val)
  show ?case
  proof (cases "i < length b")
    case False
    with "1.prems" show ?thesis by (simp add: varint_decode_value.simps [of b i])
  next
    case True
    show ?thesis
    proof (cases "uint (b ! i) AND 0x80 = 0")
      case stop: True
      with True "1.prems" show ?thesis by (auto simp: decode_value_step)
    next
      case False
      with True "1.prems"
      have "varint_decode_value b (i + 1) (shift + 7)
              (val OR push_bit shift (uint (b ! i) AND 0x7F)) = Inr (v, j)"
        by (simp add: decode_value_step)
      with "1.IH" [OF True refl refl refl False] show ?thesis by simp
    qed
  qed
qed

lemma decode_from_truncated:
  "i < length b \<Longrightarrow> uint (last b) AND 0x80 \<noteq> 0 \<Longrightarrow>
   snd (varint_decode_from b i) = Some IndexError"
proof (induction b i rule: varint_decode_from.induct)
  case (1 b i)
  show ?case
  proof (cases "varint_decode_value b i 0 0")
    case (Inl e)
    then have "e = IndexError" by (rule decode_value_error)
    with Inl "1.prems" show ?thesis by (subst varint_decode_from.simps) simp
  next
    case (Inr p)
    obtain v j where p: "p = (v, j)" by (cases p)
    from Inr p have dv: "varint_decode_value b i 0 0 = Inr (v, j)" by simp
    from varint_decode_value_advances [OF dv] have j: "i < j" "j \<le> length b" by simp_all
    from decode_value_ends_on_stop [OF dv] have stop: "uint (b ! (j - 1)) AND 0x80 = 0" .
    have "j \<noteq> length b"
    proof
      assume "j = length b"
      moreover from "1.prems" have "b \<noteq> []" by auto
      ultimately have "b ! (j - 1) = last b" by (simp add: last_conv_nth)
      with stop "1.prems" show False by simp
    qed
    with j have "j < length b" by simp
    from "1.IH" [OF "1.prems"(1) dv refl this "1.prems"(2)]
    have "snd (varint_decode_from b j) = Some IndexError" .
    with dv "1.prems" show ?thesis
      by (subst varint_decode_from.simps) (auto split: prod.splits)
  qed
qed

text \<open>
  Claim C3. For every non-negative integer \<open>n\<close>, \<open>varint_encode n\<close> returns, and
  decoding its bytes yields exactly \<open>n\<close>; and for every finite sequence of non-negative
  integers, decoding the concatenation of their encodings yields that sequence, in order,
  with the generator ending normally.
\<close>

theorem varint_roundtrip:
  "(0 \<le> n \<longrightarrow>
      (\<exists>bs. varint_encode n = Some bs \<and> varint_decode_stream bs = ([n], None))) \<and>
   ((\<forall>x\<in>set ns. 0 \<le> x) \<longrightarrow>
      (\<exists>bss. map varint_encode ns = map Some bss \<and>
             varint_decode_stream (concat bss) = (ns, None)))"
proof (intro conjI impI)
  assume "0 \<le> n"
  then show "\<exists>bs. varint_encode n = Some bs \<and> varint_decode_stream bs = ([n], None)"
    using decode_stream_bytes [of "[n]"] by (simp add: varint_encode_bytes)
next
  assume nn: "\<forall>x\<in>set ns. 0 \<le> x"
  then have "map varint_encode ns = map Some (map varint_bytes ns)"
    by (simp add: varint_encode_bytes)
  moreover have "varint_decode_stream (concat (map varint_bytes ns)) = (ns, None)"
    using nn by (rule decode_stream_bytes)
  ultimately show "\<exists>bss. map varint_encode ns = map Some bss \<and>
      varint_decode_stream (concat bss) = (ns, None)"
    by blast
qed

text \<open>
  Witness for C3 at \<open>n = 300\<close> and the sequence \<open>[3, 2, 295]\<close>.
\<close>

theorem varint_roundtrip_witness:
  "varint_encode 300 = Some [0xAC, 0x02] \<and>
   varint_decode_stream [0xAC, 0x02] = ([300], None) \<and>
   map varint_encode [3, 2, 295] = map Some [[3], [2], [0xA7, 0x02]] \<and>
   varint_decode_stream (concat [[3], [2], [0xA7, 0x02]]) = ([3, 2, 295], None)"
proof -
  have enc: "varint_encode 300 = Some [0xAC, 0x02]" "varint_encode 3 = Some [3]"
    "varint_encode 2 = Some [2]" "varint_encode 295 = Some [0xA7, 0x02]"
    by code_simp+
  from varint_roundtrip [of 300 "[3, 2, 295]"] show ?thesis
    by (auto simp: enc)
qed

text \<open>
  Claim C4. For every sorted, duplicate-free list \<open>L\<close> of non-negative integers,
  \<open>compress_postings L\<close> returns and \<open>decompress_postings\<close> of its bytes is \<open>L\<close>; the
  empty list compresses to the empty byte string, and the empty byte string decompresses
  to the empty list.
\<close>

theorem postings_roundtrip:
  "(sorted L \<and> distinct L \<and> (\<forall>x\<in>set L. 0 \<le> x) \<longrightarrow>
      (\<exists>bs. compress_postings L = Some bs \<and> decompress_postings bs = Inr L)) \<and>
   compress_postings [] = Some [] \<and> decompress_postings [] = Inr []"
proof (intro conjI impI)
  assume "sorted L \<and> distinct L \<and> (\<forall>x\<in>set L. 0 \<le> x)"
  then show "\<exists>bs. compress_postings L = Some bs \<and> decompress_postings bs = Inr L"
    using compress_decompress [of L] by blast
next
  show "compress_postings [] = Some []" by (simp add: compress_postings_def)
next
  show "decompress_postings [] = Inr []"
    by (simp add: decompress_postings_def varint_decode_stream_def varint_decode_from.simps)
qed

text \<open>
  Witness for C4 at \<open>L = [3, 5, 300]\<close>.
\<close>

theorem postings_roundtrip_witness:
  "sorted [3, 5, 300 :: int] \<and> distinct [3, 5, 300 :: int] \<and>
   compress_postings [3, 5, 300] = Some [3, 2, 0xA7, 0x02] \<and>
   decompress_postings [3, 2, 0xA7, 0x02] = Inr [3, 5, 300]"
proof -
  have c: "compress_postings [3, 5, 300] = Some [3, 2, 0xA7, 0x02]"
    by code_simp
  from postings_roundtrip [of "[3, 5, 300]"] show ?thesis
    by (auto simp: c)
qed

text \<open>
  Claim C7. A byte buffer that ends mid-varint (it is not empty and its last byte has the
  continuation bit set) makes the generator \<open>varint_decode_stream\<close> end with IndexError,
  and makes \<open>decompress_postings\<close> raise IndexError: both functions are total, so neither
  loops, and no list is returned.
\<close>

theorem truncated_varint_fails:
  "b \<noteq> [] \<Longrightarrow> uint (last b) AND 0x80 \<noteq> 0 \<Longrightarrow>
   snd (varint_decode_stream b) = Some IndexError \<and> decompress_postings b = Inl IndexError"
proof -
  assume "b \<noteq> []" and cont: "uint (last b) AND 0x80 \<noteq> 0"
  then have "0 < length b" by simp
  from decode_from_truncated [OF this cont]
  have s: "snd (varint_decode_stream b) = Some IndexError"
    by (simp add: varint_decode_stream_def)
  then show ?thesis
    by (cases "varint_decode_stream b") (simp add: decompress_postings_def)
qed

text \<open>
  Witness for C7 at the buffer \<open>AC 02 00 FF\<close>: two values are yielded, then IndexError.
\<close>

theorem truncated_varint_fails_witness:
  "[0xAC, 0x02, 0x00, 0xFF] \<noteq> ([] :: byte list) \<and>
   uint (last [0xAC, 0x02, 0x00, 0xFF :: byte]) AND 0x80 \<noteq> 0 \<and>
   varint_decode_stream [0xAC, 0x02, 0x00, 0xFF] = ([300, 0], Some IndexError) \<and>
   decompress_postings [0xAC, 0x02, 0x00, 0xFF] = Inl IndexError"
proof -
  have h: "uint (last [0xAC, 0x02, 0x00, 0xFF :: byte]) AND 0x80 \<noteq> 0" by simp
  have v: "varint_decode_stream [0xAC, 0x02, 0x00, 0xFF] = ([300, 0], Some IndexError)"
    by code_simp
  from truncated_varint_fails [of "[0xAC, 0x02, 0x00, 0xFF]"] h v show ?thesis
    by simp
qed

section \<open>Proofs: the Bloom filter\<close>

lemma bit_test: "(drop_bit n (x::int) AND 1 = 0) \<longleftrightarrow> \<not> bit x n"
proof -
  have "drop_bit n x AND 1 = of_bool (odd (drop_bit n x))"
    by (simp only: and_one_eq mod_2_eq_odd)
  then show ?thesis
    by (simp add: bit_iff_odd_drop_bit)
qed

lemma add_loop_keeps: "bit bits n \<Longrightarrow> bit (fst (add_loop bits ps e)) n"
  by (induction ps arbitrary: bits) (simp_all add: bit_simps)

lemma add_loop_ok_gen: "snd (add_loop bits ps e) = None \<Longrightarrow> e = None"
proof (induction ps arbitrary: bits)
  case Nil
  then show ?case by simp
next
  case (Cons q ps)
  from Cons.prems have "snd (add_loop (bits OR push_bit (nat q) 1) ps e) = None"
    by (simp split: if_splits)
  then show ?case by (rule Cons.IH)
qed

lemma add_loop_sets:
  "snd (add_loop bits ps e) = None \<Longrightarrow> p \<in> set ps \<Longrightarrow>
   0 \<le> p \<and> bit (fst (add_loop bits ps e)) (nat p)"
proof (induction ps arbitrary: bits)
  case Nil
  then show ?case by simp
next
  case (Cons q ps)
  from Cons.prems(1) have q0: "0 \<le> q" by (simp split: if_splits)
  with Cons.prems(1) have s: "snd (add_loop (bits OR push_bit (nat q) 1) ps e) = None" by simp
  show ?case
  proof (cases "p = q")
    case True
    have "bit (bits OR push_bit (nat q) 1) (nat q)" by (simp add: bit_simps)
    then have "bit (fst (add_loop (bits OR push_bit (nat q) 1) ps e)) (nat q)"
      by (rule add_loop_keeps)
    with True q0 show ?thesis by simp
  next
    case False
    with Cons.prems(2) have "p \<in> set ps" by simp
    from Cons.IH [OF s this] q0 show ?thesis by simp
  qed
qed

lemma contains_loop_all_set:
  "\<forall>p\<in>set ps. 0 \<le> p \<and> bit bits (nat p) \<Longrightarrow> contains_loop bits ps None = Inr True"
  by (induction ps) (simp_all add: bit_test)

lemma add_params: "bf_m (fst (add sha256 bf key)) = bf_m bf" "bf_k (fst (add sha256 bf key)) = bf_k bf"
  by (simp_all add: add_def split: prod.splits)

lemma add_keeps: "bit (bitarr bf) n \<Longrightarrow> bit (bitarr (fst (add sha256 bf key))) n"
proof -
  assume b: "bit (bitarr bf) n"
  obtain ps e where h: "hashes sha256 bf (encode_utf8 key) = (ps, e)"
    by (cases "hashes sha256 bf (encode_utf8 key)")
  have "bitarr (fst (add sha256 bf key)) = fst (add_loop (bitarr bf) ps e)"
    using h by (simp add: add_def split: prod.splits)
  with add_loop_keeps [OF b, of ps e] show ?thesis by simp
qed

lemma add_all_params:
  "bf_m (add_all sha256 bf keys) = bf_m bf" "bf_k (add_all sha256 bf keys) = bf_k bf"
  by (induction keys arbitrary: bf) (simp_all add: add_params)

lemma add_all_keeps: "bit (bitarr bf) n \<Longrightarrow> bit (bitarr (add_all sha256 bf keys)) n"
  by (induction keys arbitrary: bf) (simp_all add: add_keeps)

lemma hashes_params:
  "bf_m bf' = bf_m bf \<Longrightarrow> bf_k bf' = bf_k bf \<Longrightarrow> hashes sha256 bf' key = hashes sha256 bf key"
  by (simp add: hashes_def)

lemma add_then_contains:
  assumes ok: "snd (add sha256 bf key) = None"
    and later: "bf_m bf' = bf_m bf" "bf_k bf' = bf_k bf"
      "\<And>n. bit (bitarr (fst (add sha256 bf key))) n \<Longrightarrow> bit (bitarr bf') n"
  shows "contains sha256 bf' key = Inr True"
proof -
  obtain ps e where h: "hashes sha256 bf (encode_utf8 key) = (ps, e)"
    by (cases "hashes sha256 bf (encode_utf8 key)")
  from ok h have s: "snd (add_loop (bitarr bf) ps e) = None"
    by (simp add: add_def split: prod.splits)
  from add_loop_ok_gen [OF s] have e: "e = None" .
  from add_loop_sets [OF s]
  have set: "\<forall>p\<in>set ps. 0 \<le> p \<and> bit (fst (add_loop (bitarr bf) ps e)) (nat p)"
    by blast
  have eq: "bitarr (fst (add sha256 bf key)) = fst (add_loop (bitarr bf) ps e)"
    using h by (simp add: add_def split: prod.splits)
  have "\<forall>p\<in>set ps. 0 \<le> p \<and> bit (bitarr bf') (nat p)"
  proof
    fix p
    assume "p \<in> set ps"
    with set have "0 \<le> p" and "bit (fst (add_loop (bitarr bf) ps e)) (nat p)"
      by simp_all
    with later(3) [of "nat p"] show "0 \<le> p \<and> bit (bitarr bf') (nat p)"
      by (simp only: eq)
  qed
  then have "contains_loop (bitarr bf') ps None = Inr True" by (rule contains_loop_all_set)
  moreover have "hashes sha256 bf' (encode_utf8 key) = (ps, None)"
    using h e hashes_params [OF later(1,2), of sha256 "encode_utf8 key"] by simp
  ultimately show ?thesis by (simp add: contains_def)
qed

text \<open>
  Claim C5. No false negative: whatever was added to a filter before, once \<open>add\<close> has
  returned for \<open>key\<close>, and whatever is added afterwards, the membership test for \<open>key\<close>
  returns True.
\<close>

theorem bloom_no_false_negative:
  "snd (add sha256 (add_all sha256 bf before) key) = None \<Longrightarrow>
   contains sha256 (add_all sha256 (fst (add sha256 (add_all sha256 bf before) key)) after) key
     = Inr True"
proof -
  let ?bf = "add_all sha256 bf before"
  let ?bf' = "add_all sha256 (fst (add sha256 ?bf key)) after"
  assume ok: "snd (add sha256 ?bf key) = None"
  have m: "bf_m ?bf' = bf_m ?bf"
    by (simp only: add_all_params add_params)
  have k: "bf_k ?bf' = bf_k ?bf"
    by (simp only: add_all_params add_params)
  show ?thesis
    by (rule add_then_contains [OF ok m k]) (rule add_all_keeps)
qed

text \<open>
  Witness for C5: a filter of 8192 bits and 6 rounds, \<open>B\<close> added before \<open>A\<close>, then
  \<open>C\<close> and \<open>D\<close> after it.
\<close>

theorem bloom_no_false_negative_witness:
  "snd (add demo_digest (add_all demo_digest \<lparr>bf_m = 8192, bf_k = 6, bitarr = 0\<rparr> [''B'']) ''A'')
     = None \<and>
   contains demo_digest
     (add_all demo_digest
        (fst (add demo_digest (add_all demo_digest \<lparr>bf_m = 8192, bf_k = 6, bitarr = 0\<rparr> [''B''])
           ''A''))
        [''C'', ''D''])
     ''A'' = Inr True"
proof -
  have ok: "snd (add demo_digest
      (add_all demo_digest \<lparr>bf_m = 8192, bf_k = 6, bitarr = 0\<rparr> [''B'']) ''A'') = None"
    by code_simp
  show ?thesis
    by (rule conjI [OF ok bloom_no_false_negative [OF ok]])
qed

section \<open>Proofs: two-pointer intersection and union\<close>

lemma intersect_loop_lists:
  "intersect_loop a b i j out = out @ inter_lists (drop i a) (drop j b)"
proof (induction a b i j out rule: intersect_loop.induct)
  case (1 a b i j out)
  show ?case
  proof (cases "i < length a \<and> j < length b")
    case False
    then have "inter_lists (drop i a) (drop j b) = []"
      by (cases "drop i a"; cases "drop j b") auto
    with False show ?thesis by (subst intersect_loop.simps) auto
  next
    case True
    then have da: "drop i a = a ! i # drop (i + 1) a" and db: "drop j b = b ! j # drop (j + 1) b"
      by (simp_all add: Cons_nth_drop_Suc)
    show ?thesis
      using True "1.IH"
      by (subst intersect_loop.simps) (auto simp: da db)
  qed
qed

lemma copy_rest_drop: "copy_rest a i out = out @ drop i a"
proof (induction a i out rule: copy_rest.induct)
  case (1 a i out)
  show ?case
  proof (cases "i < length a")
    case False
    then show ?thesis by (subst copy_rest.simps) simp
  next
    case True
    then have "drop i a = a ! i # drop (i + 1) a" by (simp add: Cons_nth_drop_Suc)
    with True "1.IH" show ?thesis by (subst copy_rest.simps) simp
  qed
qed

lemma merge_loop_lists:
  "(case merge_loop a b i j out of (i', j', out') \<Rightarrow> copy_rest b j' (copy_rest a i' out'))
   = out @ merge_lists (drop i a) (drop j b)"
proof (induction a b i j out rule: merge_loop.induct)
  case (1 a b i j out)
  show ?case
  proof (cases "i < length a \<and> j < length b")
    case False
    then have "merge_lists (drop i a) (drop j b) = drop i a @ drop j b"
      by (cases "drop i a"; cases "drop j b") auto
    with False show ?thesis by (subst merge_loop.simps) (auto simp: copy_rest_drop)
  next
    case True
    then have da: "drop i a = a ! i # drop (i + 1) a" and db: "drop j b = b ! j # drop (j + 1) b"
      by (simp_all add: Cons_nth_drop_Suc)
    show ?thesis
      using True "1.IH"
      by (subst merge_loop.simps) (auto simp: da db)
  qed
qed

lemma dedup_loop_strict:
  "sorted_wrt (<) xs \<Longrightarrow> (\<forall>p. prev = Some p \<longrightarrow> (\<forall>x\<in>set xs. p < x)) \<Longrightarrow>
   dedup_loop xs prev res = res @ xs"
proof (induction xs arbitrary: prev res)
  case Nil
  show ?case by simp
next
  case (Cons x xs)
  from Cons.prems have ne: "Some x \<noteq> prev" by auto
  have "dedup_loop xs (Some x) (res @ [x]) = (res @ [x]) @ xs"
    using Cons.prems by (intro Cons.IH) auto
  with ne show ?case by simp
qed

lemma set_inter_lists:
  "sorted_wrt (<) xs \<Longrightarrow> sorted_wrt (<) ys \<Longrightarrow> set (inter_lists xs ys) = set xs \<inter> set ys"
  by (induction xs ys rule: inter_lists.induct) auto

lemma sorted_inter_lists:
  "sorted_wrt (<) xs \<Longrightarrow> sorted_wrt (<) ys \<Longrightarrow> sorted_wrt (<) (inter_lists xs ys)"
  by (induction xs ys rule: inter_lists.induct) (auto simp: set_inter_lists)

lemma set_merge_lists: "set (merge_lists xs ys) = set xs \<union> set ys"
  by (induction xs ys rule: merge_lists.induct) auto

lemma sorted_merge_lists:
  "sorted_wrt (<) xs \<Longrightarrow> sorted_wrt (<) ys \<Longrightarrow> sorted_wrt (<) (merge_lists xs ys)"
  by (induction xs ys rule: merge_lists.induct) (auto simp: set_merge_lists)

lemma strict_sorted_list_of_set:
  "sorted_wrt (<) (xs :: int list) \<Longrightarrow> sorted_list_of_set (set xs) = xs"
  by (simp add: strict_sorted_iff sorted_list_of_set.idem_if_sorted_distinct)

text \<open>
  Claim C6. For sorted, duplicate-free integer lists \<open>A\<close> and \<open>B\<close>,
  \<open>intersect_sorted A B\<close> is the sorted list of the elements common to both, and
  \<open>merge_sorted A B\<close> is the sorted, duplicate-free list of the elements of either.
\<close>

theorem two_pointer_set_operations:
  "sorted A \<and> distinct A \<and> sorted B \<and> distinct B \<Longrightarrow>
   intersect_sorted A B = sorted_list_of_set (set A \<inter> set B) \<and>
   merge_sorted A B = sorted_list_of_set (set A \<union> set B)"
proof -
  assume "sorted A \<and> distinct A \<and> sorted B \<and> distinct B"
  then have sA: "sorted_wrt (<) A" and sB: "sorted_wrt (<) B"
    by (simp_all add: strict_sorted_iff)
  have "intersect_sorted A B = inter_lists A B"
    by (simp add: intersect_sorted_def intersect_loop_lists)
  moreover have "sorted_list_of_set (set (inter_lists A B)) = inter_lists A B"
    using sA sB by (intro strict_sorted_list_of_set sorted_inter_lists)
  ultimately have 1: "intersect_sorted A B = sorted_list_of_set (set A \<inter> set B)"
    using sA sB by (simp add: set_inter_lists)
  have "merge_sorted A B = dedup_loop (merge_lists A B) None []"
    using merge_loop_lists [where a = A and b = B and i = 0 and j = 0 and out = "[]"]
    by (simp add: merge_sorted_def split: prod.splits)
  also have "\<dots> = merge_lists A B"
    using sA sB by (simp add: dedup_loop_strict sorted_merge_lists)
  finally have "merge_sorted A B = merge_lists A B" .
  moreover have "sorted_list_of_set (set (merge_lists A B)) = merge_lists A B"
    using sA sB by (intro strict_sorted_list_of_set sorted_merge_lists)
  ultimately have 2: "merge_sorted A B = sorted_list_of_set (set A \<union> set B)"
    by (simp add: set_merge_lists)
  from 1 2 show ?thesis ..
qed

text \<open>
  Witness for C6 at \<open>A = [1, 2, 5, 7]\<close> and \<open>B = [2, 3, 7, 9]\<close>.
\<close>

theorem two_pointer_set_operations_witness:
  "sorted [1, 2, 5, 7 :: int] \<and> distinct [1, 2, 5, 7 :: int] \<and>
   sorted [2, 3, 7, 9 :: int] \<and> distinct [2, 3, 7, 9 :: int] \<and>
   intersect_sorted [1, 2, 5, 7] [2, 3, 7, 9] = [2, 7] \<and>
   merge_sorted [1, 2, 5, 7] [2, 3, 7, 9] = [1, 2, 3, 5, 7, 9]"
proof -
  have h: "sorted [1, 2, 5, 7 :: int] \<and> distinct [1, 2, 5, 7 :: int] \<and>
           sorted [2, 3, 7, 9 :: int] \<and> distinct [2, 3, 7, 9 :: int]"
    by simp
  have i: "intersect_sorted [1, 2, 5, 7] [2, 3, 7, 9] = [2, 7]" by code_simp
  have m: "merge_sorted [1, 2, 5, 7] [2, 3, 7, 9] = [1, 2, 3, 5, 7, 9]" by code_simp
  from two_pointer_set_operations [OF h] h i m show ?thesis by simp
qed

section \<open>Proofs: a concrete index\<close>

text \<open>
  \<open>demo_db\<close> is the database that \<open>build_index\<close> leaves for \<open>demo_chain\<close>.
\<close>

lemma demo_build: "build_index demo_digest demo_indexer demo_chain = Some (Inr demo_db)"
  by code_simp

lemma demo_digest_length: "\<forall>x. length (demo_digest x) = 32"
  by (simp add: demo_digest_def)

section \<open>Proofs: the order of the shard rows\<close>

lemma contains_loop_error_unique:
  "contains_loop bits ps e0 = Inl e \<Longrightarrow> contains_loop bits' ps e0 = Inl e' \<Longrightarrow> e = e'"
  by (induction ps) (auto split: if_splits option.splits)

lemma contains_error_unique:
  assumes "contains sha256 bf key = Inl e" "contains sha256 bf' key = Inl e'"
    and "bf_m bf' = bf_m bf" "bf_k bf' = bf_k bf"
  shows "e = e'"
proof -
  obtain ps e0 where h: "hashes sha256 bf (encode_utf8 key) = (ps, e0)"
    by (cases "hashes sha256 bf (encode_utf8 key)")
  with assms(3,4) have h': "hashes sha256 bf' (encode_utf8 key) = (ps, e0)"
    by (simp add: hashes_def)
  from assms(1) h have "contains_loop (bitarr bf) ps e0 = Inl e" by (simp add: contains_def)
  moreover from assms(2) h' have "contains_loop (bitarr bf') ps e0 = Inl e'"
    by (simp add: contains_def)
  ultimately show ?thesis by (rule contains_loop_error_unique)
qed

lemma shard_test_error_unique:
  "shard_test sha256 self key r = Inl e \<Longrightarrow> shard_test sha256 self key r' = Inl e' \<Longrightarrow> e = e'"
  unfolding shard_test_def
  by (erule (1) contains_error_unique) (simp_all add: from_bytes_def)

lemma candidates_loop_step:
  "candidates_loop sha256 self key (row # rows) acc =
     (case shard_test sha256 self key row of
        Inl e \<Rightarrow> Inl e
      | Inr True \<Rightarrow> candidates_loop sha256 self key rows (acc @ [shard_id row])
      | Inr False \<Rightarrow> candidates_loop sha256 self key rows acc)"
  by (simp add: shard_test_def Let_def)

lemma candidates_loop_ok:
  "\<forall>r\<in>set rows. \<exists>b. shard_test sha256 self key r = Inr b \<Longrightarrow>
   candidates_loop sha256 self key rows acc =
     Inr (acc @ map shard_id (filter (\<lambda>r. shard_test sha256 self key r = Inr True) rows))"
proof (induction rows arbitrary: acc)
  case Nil
  show ?case by simp
next
  case (Cons row rows)
  from Cons.prems obtain b where b: "shard_test sha256 self key row = Inr b" by auto
  from Cons.prems have rest: "\<forall>r\<in>set rows. \<exists>b. shard_test sha256 self key r = Inr b" by simp
  show ?case
  proof (cases b)
    case True
    with b have t: "shard_test sha256 self key row = Inr True" by simp
    show ?thesis
      by (simp only: candidates_loop_step t Cons.IH [OF rest]) (simp add: t)
  next
    case False
    with b have f: "shard_test sha256 self key row = Inr False" by simp
    show ?thesis
      by (simp only: candidates_loop_step f Cons.IH [OF rest]) (simp add: f)
  qed
qed

lemma candidates_loop_error:
  "r \<in> set rows \<Longrightarrow> shard_test sha256 self key r = Inl e \<Longrightarrow>
   candidates_loop sha256 self key rows acc = Inl e"
proof (induction rows arbitrary: acc)
  case Nil
  then show ?case by simp
next
  case (Cons row rows)
  show ?case
  proof (cases "shard_test sha256 self key row")
    case (Inl e0)
    from Inl Cons.prems(2) have "e0 = e" by (rule shard_test_error_unique)
    with Inl show ?thesis by (simp only: candidates_loop_step) simp
  next
    case (Inr b)
    with Cons.prems have "r \<in> set rows" by auto
    from Cons.IH [OF this Cons.prems(2)] have
      "candidates_loop sha256 self key rows (acc @ [shard_id row]) = Inl e"
      "candidates_loop sha256 self key rows acc = Inl e"
      by simp_all
    with Inr show ?thesis
      by (cases b) (simp_all only: candidates_loop_step, simp_all)
  qed
qed

lemma fetch_loop_step:
  "fetch_loop tbl key (sid # sids) res =
     (case shard_fetch tbl key sid of
        Inl e \<Rightarrow> Inl e
      | Inr blocks \<Rightarrow> fetch_loop tbl key sids (res @ blocks))"
  by (simp add: shard_fetch_def split: option.splits)

lemma decode_from_error: "snd (varint_decode_from b i) = Some e \<Longrightarrow> e = IndexError"
proof (induction b i rule: varint_decode_from.induct)
  case (1 b i)
  show ?case
  proof (cases "i < length b")
    case False
    with "1.prems" show ?thesis by (simp add: varint_decode_from.simps [of b i])
  next
    case True
    show ?thesis
    proof (cases "varint_decode_value b i 0 0")
      case (Inl e0)
      then have "e0 = IndexError" by (rule decode_value_error)
      with Inl True "1.prems" show ?thesis by (simp add: varint_decode_from.simps [of b i])
    next
      case (Inr p)
      obtain v j where p: "p = (v, j)" by (cases p)
      from Inr p have dv: "varint_decode_value b i 0 0 = Inr (v, j)" by simp
      with True "1.prems" have "snd (varint_decode_from b j) = Some e"
        by (simp add: varint_decode_from.simps [of b i] split: prod.splits)
      with "1.IH" [OF True dv refl] show ?thesis by simp
    qed
  qed
qed

lemma decompress_error: "decompress_postings b = Inl e \<Longrightarrow> e = IndexError"
  using decode_from_error [of b 0 e]
  by (auto simp: decompress_postings_def varint_decode_stream_def split: prod.splits option.splits)

lemma shard_fetch_error: "shard_fetch tbl key sid = Inl e \<Longrightarrow> e = IndexError"
  by (auto simp: shard_fetch_def split: option.splits dest: decompress_error)

lemma fetch_loop_ok:
  "\<forall>s\<in>set sids. \<exists>blocks. shard_fetch tbl key s = Inr blocks \<Longrightarrow>
   fetch_loop tbl key sids res = Inr (res @ concat (map (shard_blocks tbl key) sids))"
proof (induction sids arbitrary: res)
  case Nil
  show ?case by simp
next
  case (Cons s sids)
  from Cons.prems obtain blocks where b: "shard_fetch tbl key s = Inr blocks" by auto
  from Cons.prems have rest: "\<forall>s\<in>set sids. \<exists>blocks. shard_fetch tbl key s = Inr blocks" by simp
  have sb: "shard_blocks tbl key s = blocks" by (simp add: shard_blocks_def b)
  show ?case
    by (simp only: fetch_loop_step b Cons.IH [OF rest]) (simp add: sb)
qed

lemma fetch_loop_error:
  "s \<in> set sids \<Longrightarrow> shard_fetch tbl key s = Inl e \<Longrightarrow>
   fetch_loop tbl key sids res = Inl IndexError"
proof (induction sids arbitrary: res)
  case Nil
  then show ?case by simp
next
  case (Cons s0 sids)
  show ?case
  proof (cases "shard_fetch tbl key s0")
    case (Inl e0)
    then have "e0 = IndexError" by (rule shard_fetch_error)
    with Inl show ?thesis by (simp only: fetch_loop_step) simp
  next
    case (Inr blocks)
    with Cons.prems have "s \<in> set sids" by auto
    from Cons.IH [OF this Cons.prems(2)]
    have "fetch_loop tbl key sids (res @ blocks) = Inl IndexError" .
    with Inr show ?thesis
      by (simp only: fetch_loop_step) simp
  qed
qed

lemma fetch_loop_perm:
  assumes "mset sids' = mset sids"
  shows "map_sum id sort (fetch_loop tbl key sids' []) = map_sum id sort (fetch_loop tbl key sids [])"
proof (cases "\<forall>s\<in>set sids. \<exists>blocks. shard_fetch tbl key s = Inr blocks")
  case True
  from assms have sets: "set sids' = set sids" by (rule mset_eq_setD)
  with True have True': "\<forall>s\<in>set sids'. \<exists>blocks. shard_fetch tbl key s = Inr blocks" by simp
  have flat: "mset (concat (map f xs)) = sum_mset (image_mset (\<lambda>x. mset (f x)) (mset xs))"
    for f :: "int \<Rightarrow> int list" and xs
    by (induction xs) simp_all
  have "mset (concat (map (shard_blocks tbl key) sids'))
        = mset (concat (map (shard_blocks tbl key) sids))"
    by (simp only: flat assms)
  then have "sort (concat (map (shard_blocks tbl key) sids'))
        = sort (concat (map (shard_blocks tbl key) sids))"
    by (intro properties_for_sort) simp_all
  then show ?thesis
    by (simp add: fetch_loop_ok [OF True] fetch_loop_ok [OF True'])
next
  case False
  then obtain s where s: "s \<in> set sids" and "\<not> (\<exists>blocks. shard_fetch tbl key s = Inr blocks)"
    by blast
  then obtain e where e: "shard_fetch tbl key s = Inl e"
    by (cases "shard_fetch tbl key s") auto
  from assms s have s': "s \<in> set sids'" by (simp flip: set_mset_mset)
  show ?thesis
    by (simp add: fetch_loop_error [OF s e] fetch_loop_error [OF s' e])
qed

lemma postings_for_alt:
  "postings_for sha256 self db key =
     (case candidates_loop sha256 self key (shards db) [] of
        Inl e \<Rightarrow> Inl e
      | Inr candidates \<Rightarrow> map_sum id sort (fetch_loop (postings db) key candidates []))"
  by (simp add: postings_for_def split: sum.splits)

lemma postings_for_perm:
  "mset rows' = mset (shards db) \<Longrightarrow>
   postings_for sha256 self (db\<lparr>shards := rows'\<rparr>) key = postings_for sha256 self db key"
proof -
  assume perm: "mset rows' = mset (shards db)"
  then have sets: "set rows' = set (shards db)" by (rule mset_eq_setD)
  show ?thesis
  proof (cases "\<forall>r\<in>set (shards db). \<exists>b. shard_test sha256 self key r = Inr b")
    case True
    with sets have True': "\<forall>r\<in>set rows'. \<exists>b. shard_test sha256 self key r = Inr b" by simp
    let ?sel = "\<lambda>rows. map shard_id (filter (\<lambda>r. shard_test sha256 self key r = Inr True) rows)"
    have "mset (?sel rows') = mset (?sel (shards db))"
      using perm by simp
    then have "map_sum id sort (fetch_loop (postings db) key (?sel rows') [])
        = map_sum id sort (fetch_loop (postings db) key (?sel (shards db)) [])"
      by (rule fetch_loop_perm)
    then show ?thesis
      by (simp add: postings_for_alt candidates_loop_ok [OF True] candidates_loop_ok [OF True'])
  next
    case False
    then obtain r where r: "r \<in> set (shards db)"
      and "\<not> (\<exists>b. shard_test sha256 self key r = Inr b)"
      by blast
    then obtain e where e: "shard_test sha256 self key r = Inl e"
      by (cases "shard_test sha256 self key r") auto
    from r sets have r': "r \<in> set rows'" by simp
    show ?thesis
      by (simp add: postings_for_alt candidates_loop_error [OF r e] candidates_loop_error [OF r' e])
  qed
qed

text \<open>
  Claim C10. \<open>postings_for\<close> does not depend on the order in which the shard rows are
  enumerated: for every database, key and permutation \<open>rows'\<close> of the shard rows, the
  outcome (the returned list, or the exception) is the same.
\<close>

theorem postings_for_shard_order:
  "mset rows' = mset (shards db) \<Longrightarrow>
   postings_for sha256 self (db\<lparr>shards := rows'\<rparr>) key = postings_for sha256 self db key"
  by (rule postings_for_perm)

text \<open>
  Witness for C10: the two shard rows of \<open>demo_db\<close> in reverse order.
\<close>

theorem postings_for_shard_order_witness:
  "mset (rev (shards demo_db)) = mset (shards demo_db) \<and>
   postings_for demo_digest demo_indexer (demo_db\<lparr>shards := rev (shards demo_db)\<rparr>) ''A''
     = Inr [0, 202] \<and>
   postings_for demo_digest demo_indexer demo_db ''A'' = Inr [0, 202]"
proof -
  have p: "mset (rev (shards demo_db)) = mset (shards demo_db)" by simp
  have v: "postings_for demo_digest demo_indexer demo_db ''A'' = Inr [0, 202]" by code_simp
  from postings_for_shard_order [OF p, of demo_digest demo_indexer "''A''"] p v
  show ?thesis by simp
qed

section \<open>Proofs: the index that build_index leaves\<close>

text \<open>
  With a 32-byte digest the hash generator raises only on \<open>m = 0\<close>, and the membership
  test returns whenever there are no rounds (\<open>k \<le> 0\<close>) or \<open>m\<close> is positive.
\<close>

lemma unpack_from_Q_ok:
  "length h = 32 \<Longrightarrow> 0 \<le> start \<Longrightarrow> start \<le> 24 \<Longrightarrow> \<exists>v. unpack_from_Q h start = Inr v"
  by (simp add: unpack_from_Q_def Let_def)

lemma hashes_loop_ok:
  "length h = 32 \<Longrightarrow> m \<noteq> 0 \<Longrightarrow>
   \<exists>ps. hashes_loop h m rounds = (ps, None) \<and> (\<forall>p\<in>set ps. \<exists>v. p = v mod m)"
proof (induction rounds)
  case Nil
  show ?case by simp
next
  case (Cons i rounds)
  have "0 \<le> (i * 8) mod 25" "(i * 8) mod 25 \<le> 24" by simp_all
  from unpack_from_Q_ok [OF Cons.prems(1) this]
  obtain v where v: "unpack_from_Q h ((i * 8) mod 25) = Inr v" ..
  from Cons.IH [OF Cons.prems] obtain ps
    where ps: "hashes_loop h m rounds = (ps, None)" "\<forall>p\<in>set ps. \<exists>v. p = v mod m"
    by blast
  from Cons.prems v ps show ?case by auto
qed

lemma contains_loop_total:
  "\<forall>p\<in>set ps. 0 \<le> p \<Longrightarrow> \<exists>b. contains_loop bits ps None = Inr b"
  by (induction ps) auto

lemma contains_total:
  assumes "length (sha256 (encode_utf8 key)) = 32" "bf_k bf \<le> 0 \<or> 0 < bf_m bf"
  shows "\<exists>b. contains sha256 bf key = Inr b"
proof (cases "bf_k bf \<le> 0")
  case True
  then have "[0..bf_k bf - 1] = []" by simp
  then show ?thesis by (auto simp: contains_def hashes_def)
next
  case False
  with assms(2) have m: "0 < bf_m bf" by simp
  then have "bf_m bf \<noteq> 0" by simp
  from hashes_loop_ok [OF assms(1) this, of "[0..bf_k bf - 1]"] obtain ps
    where ps: "hashes sha256 bf (encode_utf8 key) = (ps, None)" "\<forall>p\<in>set ps. \<exists>v. p = v mod bf_m bf"
    by (auto simp: hashes_def)
  from ps(2) m have "\<forall>p\<in>set ps. 0 \<le> p" by auto
  from contains_loop_total [OF this] ps(1) show ?thesis by (simp add: contains_def)
qed

text \<open>
  The remaining configurations, \<open>0 < k\<close> and \<open>m \<le> 0\<close>: an \<open>add\<close> that returns has
  set bit 0 (every position is \<open>val mod m \<le> 0\<close>), and then \<open>to_bytes\<close> raises, because
  \<open>(m + 7) div 8 \<le> 0\<close> bytes cannot hold the bit. So no index is built with them unless
  it has no shard at all.
\<close>

lemma add_degenerate:
  assumes len: "length (sha256 (encode_utf8 key)) = 32"
    and k: "0 < bf_k bf" and m: "bf_m bf \<le> 0"
    and ok: "snd (add sha256 bf key) = None"
  shows "bit (bitarr (fst (add sha256 bf key))) 0"
proof -
  let ?h = "sha256 (encode_utf8 key)"
  from k have rounds: "[0..bf_k bf - 1] = 0 # [1..bf_k bf - 1]"
    by (simp add: upto_rec1)
  from unpack_from_Q_ok [OF len, of 0] obtain v where v: "unpack_from_Q ?h 0 = Inr v" by auto
  obtain ps e where h: "hashes sha256 bf (encode_utf8 key) = (ps, e)"
    by (cases "hashes sha256 bf (encode_utf8 key)")
  from ok h have s: "snd (add_loop (bitarr bf) ps e) = None"
    by (simp add: add_def split: prod.splits)
  have eq: "bitarr (fst (add sha256 bf key)) = fst (add_loop (bitarr bf) ps e)"
    using h by (simp add: add_def split: prod.splits)
  have m0: "bf_m bf \<noteq> 0"
  proof
    assume z: "bf_m bf = 0"
    with h rounds len v have "ps = []" "e = Some ZeroDivisionError"
      by (simp_all add: hashes_def)
    with s show False by simp
  qed
  with h rounds len v have "v mod bf_m bf \<in> set ps"
    by (auto simp: hashes_def split: prod.splits)
  from add_loop_sets [OF s this]
  have p: "0 \<le> v mod bf_m bf" "bit (fst (add_loop (bitarr bf) ps e)) (nat (v mod bf_m bf))"
    by simp_all
  from m m0 have "bf_m bf < 0" by simp
  then have "v mod bf_m bf \<le> 0" by simp
  with p(1) have "v mod bf_m bf = 0" by simp
  with p(2) eq show ?thesis by simp
qed

lemma to_bytes_degenerate:
  assumes "bf_m bf \<le> 0" "bit (bitarr bf) 0"
  shows "\<exists>e. to_bytes bf = Inl e"
proof -
  from assms(1) have n: "(bf_m bf + 7) div 8 \<le> 0" by simp
  from assms(2) have "bitarr bf \<noteq> 0" by auto
  then have "bitarr bf < 0 \<or> 1 \<le> bitarr bf" by arith
  with n show ?thesis
    by (cases "(bf_m bf + 7) div 8 < 0") (auto simp: to_bytes_def int_to_bytes_big_def Let_def)
qed

lemma set_map_default:
  "(k', v') \<in> set (AList.map_default k v f xs) \<Longrightarrow>
   (k', v') \<in> set xs \<or>
   (k' = k \<and> (v' = v \<or> (\<exists>v0. (k, v0) \<in> set xs \<and> v' = f v0)))"
  by (induction xs) (auto split: if_splits)

lemma fold_err_inv:
  assumes "fold_err f xs s = Inr s'" "P s"
    and "\<And>x s s'. x \<in> set xs \<Longrightarrow> P s \<Longrightarrow> f x s = Inr s' \<Longrightarrow> P s'"
  shows "P s'"
  using assms
proof (induction xs arbitrary: s)
  case Nil
  then show ?case by simp
next
  case (Cons x xs)
  from Cons.prems(1) obtain s1 where s1: "f x s = Inr s1" "fold_err f xs s1 = Inr s'"
    by (auto split: sum.splits)
  from Cons.prems(3) [OF _ Cons.prems(2) s1(1)] have "P s1" by simp
  show ?case
  proof (rule Cons.IH [OF s1(2) \<open>P s1\<close>])
    fix y t t'
    assume "y \<in> set xs" "P t" "f y t = Inr t'"
    then show "P t'" using Cons.prems(3) [of y t t'] by simp
  qed
qed

lemma index_key_cases:
  assumes "index_key sha256 sid blknum key st = Inr st'"
  obtains bf bf' where "map_of (shard_blooms st) sid = Some bf"
    and "add sha256 bf key = (bf', None)"
    and "shard_postings st' =
           AList.map_default sid [(key, [blknum])]
             (AList.map_default key [blknum] (\<lambda>blocks. blocks @ [blknum])) (shard_postings st)"
    and "shard_blooms st' = AList.update sid bf' (shard_blooms st)"
  using assms
  by (auto simp: index_key_def Let_def split: option.splits prod.splits)

lemma index_key_inv:
  assumes step: "index_key sha256 sid blknum key st = Inr st'"
    and inv: "scan_inv self K st"
    and key: "key \<in> K"
    and sid: "sid = blknum div shard_size self"
    and len: "length (sha256 (encode_utf8 key)) = 32"
  shows "scan_inv self K st'"
proof -
  from step obtain bf bf' where bf: "map_of (shard_blooms st) sid = Some bf"
    and add: "add sha256 bf key = (bf', None)"
    and sp: "shard_postings st' =
           AList.map_default sid [(key, [blknum])]
             (AList.map_default key [blknum] (\<lambda>blocks. blocks @ [blknum])) (shard_postings st)"
    and sb: "shard_blooms st' = AList.update sid bf' (shard_blooms st)"
    by (rule index_key_cases)
  from inv have d: "distinct (map fst (shard_postings st))"
    and content: "\<And>s posts k blocks. (s, posts) \<in> set (shard_postings st) \<Longrightarrow>
        (k, blocks) \<in> set posts \<Longrightarrow> k \<in> K \<and> (\<forall>b\<in>set blocks. b div shard_size self = s)"
    and blooms: "\<And>s posts. (s, posts) \<in> set (shard_postings st) \<Longrightarrow>
        \<exists>bf. map_of (shard_blooms st) s = Some bf \<and>
              (0 < bloom_k self \<and> bloom_m self \<le> 0 \<longrightarrow> bit (bitarr bf) 0)"
    and params: "\<And>s bf. map_of (shard_blooms st) s = Some bf \<Longrightarrow>
        bf_m bf = bloom_m self \<and> bf_k bf = bloom_k self"
    unfolding scan_inv_def by blast+
  from params [OF bf] have pbf: "bf_m bf = bloom_m self" "bf_k bf = bloom_k self" by simp_all
  from add have bf'_eq: "bf' = fst (add sha256 bf key)" and ok: "snd (add sha256 bf key) = None"
    by simp_all
  have pbf': "bf_m bf' = bloom_m self" "bf_k bf' = bloom_k self"
    using pbf by (simp_all add: bf'_eq add_params)
  have deg: "bit (bitarr bf') 0" if "0 < bloom_k self" "bloom_m self \<le> 0"
    unfolding bf'_eq using len _ _ ok by (rule add_degenerate) (simp_all add: pbf that)
  have lookup: "map_of (shard_blooms st') s = (if s = sid then Some bf' else map_of (shard_blooms st) s)"
    for s by (simp add: sb update_conv)
  have 1: "distinct (map fst (shard_postings st'))"
    unfolding sp using d by (rule distinct_map_default)
  have 2: "k \<in> K \<and> (\<forall>b\<in>set blocks. b div shard_size self = s)"
    if in_sp: "(s, posts) \<in> set (shard_postings st')" and in_posts: "(k, blocks) \<in> set posts"
    for s posts k blocks
  proof -
    from in_sp [unfolded sp, THEN set_map_default]
    consider "(s, posts) \<in> set (shard_postings st)"
      | "s = sid" "posts = [(key, [blknum])]"
      | posts0 where "s = sid" "(sid, posts0) \<in> set (shard_postings st)"
          "posts = AList.map_default key [blknum] (\<lambda>blocks. blocks @ [blknum]) posts0"
      by blast
    then show ?thesis
    proof cases
      case 1
      from content [OF this in_posts] show ?thesis .
    next
      case 2
      with in_posts key sid show ?thesis by simp
    next
      case 3
      from in_posts [unfolded 3(3), THEN set_map_default]
      consider "(k, blocks) \<in> set posts0"
        | "k = key" "blocks = [blknum]"
        | blocks0 where "k = key" "(key, blocks0) \<in> set posts0" "blocks = blocks0 @ [blknum]"
        by blast
      then show ?thesis
      proof cases
        case 1
        from content [OF 3(2) this] 3(1) show ?thesis by simp
      next
        case 2
        with key sid 3(1) show ?thesis by simp
      next
        case 3
        from content [OF \<open>(sid, posts0) \<in> set (shard_postings st)\<close> 3(2)] 3(1,3) key sid
          \<open>s = sid\<close>
        show ?thesis by simp
      qed
    qed
  qed
  have 3: "\<exists>bf. map_of (shard_blooms st') s = Some bf \<and>
              (0 < bloom_k self \<and> bloom_m self \<le> 0 \<longrightarrow> bit (bitarr bf) 0)"
    if in_sp: "(s, posts) \<in> set (shard_postings st')" for s posts
  proof (cases "s = sid")
    case True
    with deg show ?thesis by (simp add: lookup)
  next
    case False
    with in_sp [unfolded sp, THEN set_map_default]
    have "(s, posts) \<in> set (shard_postings st)" by blast
    from blooms [OF this] False show ?thesis by (simp add: lookup)
  qed
  have 4: "bf_m b = bloom_m self \<and> bf_k b = bloom_k self"
    if "map_of (shard_blooms st') s = Some b" for s b
    using that pbf' params [of s b] by (simp add: lookup split: if_splits)
  from 1 2 3 4 show ?thesis
    unfolding scan_inv_def by blast
qed

lemma index_tx_inv:
  assumes "index_tx sha256 sid blknum t st = Inr st'"
    and "scan_inv self K st" "set (tx_keys t) \<subseteq> K"
    and "sid = blknum div shard_size self"
    and "\<forall>x. length (sha256 x) = 32"
  shows "scan_inv self K st'"
proof (rule fold_err_inv [where P = "scan_inv self K"])
  show "fold_err (index_key sha256 sid blknum) (tx_keys t) st = Inr st'"
    using assms(1) by (simp add: index_tx_def)
  show "scan_inv self K st" by fact
next
  fix key s s'
  assume "key \<in> set (tx_keys t)" "scan_inv self K s" "index_key sha256 sid blknum key s = Inr s'"
  with assms(3,4,5) show "scan_inv self K s'"
    by (intro index_key_inv [of sha256 sid blknum key s s' self K]) auto
qed

lemma scan_inv_new_bloom:
  assumes "scan_inv self K st"
  shows "scan_inv self K
           (st\<lparr>shard_blooms := shard_blooms st @
              [(sid, \<lparr>bf_m = bloom_m self, bf_k = bloom_k self, bitarr = 0\<rparr>)]\<rparr>)"
  using assms unfolding scan_inv_def
  by (auto simp: map_add_def split: option.splits)

lemma index_block_inv:
  assumes step: "index_block sha256 self blk st = Inr st'"
    and inv: "scan_inv self K st"
    and keys: "\<forall>t\<in>set (transactions blk). set (tx_keys t) \<subseteq> K"
    and len: "\<forall>x. length (sha256 x) = 32"
  shows "scan_inv self K st'"
proof -
  let ?sid = "block_number blk div shard_size self"
  let ?st1 = "if map_of (shard_blooms st) ?sid = None
              then st\<lparr>shard_blooms := shard_blooms st @
                     [(?sid, \<lparr>bf_m = bloom_m self, bf_k = bloom_k self, bitarr = 0\<rparr>)]\<rparr>
              else st"
  from step have fold: "fold_err (index_tx sha256 ?sid (block_number blk)) (transactions blk) ?st1 = Inr st'"
    by (auto simp: index_block_def Let_def split: if_splits)
  have inv1: "scan_inv self K ?st1"
    using inv scan_inv_new_bloom [OF inv, of ?sid] by simp
  show ?thesis
  proof (rule fold_err_inv [where P = "scan_inv self K", OF fold inv1])
    fix t s s'
    assume "t \<in> set (transactions blk)" "scan_inv self K s"
      "index_tx sha256 ?sid (block_number blk) t s = Inr s'"
    with keys len show "scan_inv self K s'"
      by (intro index_tx_inv [of sha256 ?sid "block_number blk" t s s' self K]) auto
  qed
qed

lemma scan_inv_result:
  assumes scan: "fold_err (index_block sha256 self) chain \<lparr>shard_postings = [], shard_blooms = []\<rparr> = Inr st"
    and len: "\<forall>x. length (sha256 x) = 32"
  shows "scan_inv self (batch_keys chain) st"
proof (rule fold_err_inv [where P = "scan_inv self (batch_keys chain)", OF scan])
  show "scan_inv self (batch_keys chain) \<lparr>shard_postings = [], shard_blooms = []\<rparr>"
    by (simp add: scan_inv_def)
next
  fix blk s s'
  assume blk: "blk \<in> set chain" and "scan_inv self (batch_keys chain) s"
    "index_block sha256 self blk s = Inr s'"
  moreover from blk have "\<forall>t\<in>set (transactions blk). set (tx_keys t) \<subseteq> batch_keys chain"
    by (auto simp: batch_keys_def)
  ultimately show "scan_inv self (batch_keys chain) s'"
    using len by (intro index_block_inv [of sha256 self blk s s']) auto
qed

text \<open>
  The second loop of \<open>build_index\<close> writes one shard row per entry of
  \<open>shard_postings\<close>, in order, and only postings rows that compress a pending list.
\<close>

lemma flush_postings_rows:
  "flush_postings sid posts tbl = Some tbl' \<Longrightarrow> row \<in> set tbl' \<Longrightarrow>
   row \<in> set tbl \<or>
   (\<exists>key blocks blob. row = ((key, sid), blob) \<and> (key, blocks) \<in> set posts \<and>
      compress_postings (sorted_list_of_set (set blocks)) = Some blob)"
proof (induction posts arbitrary: tbl)
  case Nil
  then show ?case by simp
next
  case (Cons p posts)
  obtain addr blocks where p: "p = (addr, blocks)" by (cases p)
  from Cons.prems(1) p obtain blob
    where blob: "compress_postings (sorted_list_of_set (set blocks)) = Some blob"
      and rest: "flush_postings sid posts (tbl @ [((addr, sid), blob)]) = Some tbl'"
    by (auto simp: Let_def split: option.splits)
  from Cons.IH [OF rest Cons.prems(2)] p blob show ?case by auto
qed

lemma flush_shards_cases:
  assumes "flush_shards self blooms ((sid, posts) # rest) db = Some (Inr db')"
  obtains bf bloom_bytes tbl where "map_of blooms sid = Some bf"
    and "to_bytes bf = Inr bloom_bytes"
    and "flush_postings sid posts (postings db) = Some tbl"
    and "flush_shards self blooms rest
           \<lparr>shards = shards db @
              [\<lparr>shard_id = sid, start_block = sid * shard_size self,
                end_block = sid * shard_size self + shard_size self - 1,
                bloom = bloom_bytes\<rparr>],
            postings = tbl\<rparr> = Some (Inr db')"
  using assms by (auto simp: Let_def split: option.splits sum.splits)

lemma flush_shards_result:
  "flush_shards self blooms sp db = Some (Inr db') \<Longrightarrow>
   map shard_id (shards db') = map shard_id (shards db) @ map fst sp \<and>
   (\<forall>row\<in>set (postings db').
      row \<in> set (postings db) \<or>
      (\<exists>sid posts key blocks blob. (sid, posts) \<in> set sp \<and> row = ((key, sid), blob) \<and>
         (key, blocks) \<in> set posts \<and>
         compress_postings (sorted_list_of_set (set blocks)) = Some blob))"
proof (induction sp arbitrary: db)
  case Nil
  then show ?case by simp
next
  case (Cons p sp)
  obtain sid posts where p: "p = (sid, posts)" by (cases p)
  from Cons.prems [unfolded p] obtain bf bloom_bytes tbl
    where tbl: "flush_postings sid posts (postings db) = Some tbl"
      and rest: "flush_shards self blooms sp
           \<lparr>shards = shards db @
              [\<lparr>shard_id = sid, start_block = sid * shard_size self,
                end_block = sid * shard_size self + shard_size self - 1,
                bloom = bloom_bytes\<rparr>],
            postings = tbl\<rparr> = Some (Inr db')"
    by (rule flush_shards_cases)
  from Cons.IH [OF rest]
  have ids: "map shard_id (shards db') = (map shard_id (shards db) @ [sid]) @ map fst sp"
    and rows: "\<forall>row\<in>set (postings db').
      row \<in> set tbl \<or>
      (\<exists>sid posts key blocks blob. (sid, posts) \<in> set sp \<and> row = ((key, sid), blob) \<and>
         (key, blocks) \<in> set posts \<and>
         compress_postings (sorted_list_of_set (set blocks)) = Some blob)"
    by simp_all
  have "row \<in> set (postings db) \<or>
      (\<exists>sid posts key blocks blob. (sid, posts) \<in> set (p # sp) \<and> row = ((key, sid), blob) \<and>
         (key, blocks) \<in> set posts \<and>
         compress_postings (sorted_list_of_set (set blocks)) = Some blob)"
    if row: "row \<in> set (postings db')" for row
  proof -
    from rows row consider "row \<in> set tbl"
      | "\<exists>sid posts key blocks blob. (sid, posts) \<in> set sp \<and> row = ((key, sid), blob) \<and>
         (key, blocks) \<in> set posts \<and>
         compress_postings (sorted_list_of_set (set blocks)) = Some blob"
      by blast
    then show ?thesis
    proof cases
      case 1
      from flush_postings_rows [OF tbl this] p show ?thesis
        by (metis list.set_intros(1))
    next
      case 2
      then show ?thesis by (metis list.set_intros(2))
    qed
  qed
  with ids p show ?case by simp
qed

text \<open>
  Whenever \<open>compress_postings\<close> returns, \<open>decompress_postings\<close> inverts it: it returns
  only if every delta is non-negative.
\<close>

lemma varint_encode_Some_nonneg: "varint_encode d = Some enc \<Longrightarrow> 0 \<le> d"
  using varint_encode_negative [of d "[]"] by (cases "0 \<le> d") (simp_all add: varint_encode_def)

lemma compress_loop_Some_nonneg:
  "compress_loop L prev out = Some bs \<Longrightarrow> \<forall>d\<in>set (compress_deltas L prev). 0 \<le> d"
proof (induction L arbitrary: prev out)
  case Nil
  show ?case by simp
next
  case (Cons b L)
  from Cons.prems obtain enc where enc: "varint_encode (b - prev) = Some enc"
    and rest: "compress_loop L b (out @ enc) = Some bs"
    by (auto simp: Let_def split: option.splits)
  from varint_encode_Some_nonneg [OF enc] Cons.IH [OF rest] show ?case by simp
qed

lemma compress_Some_roundtrip:
  assumes "compress_postings L = Some blob"
  shows "decompress_postings blob = Inr L"
proof (cases "L = []")
  case True
  with assms show ?thesis
    by (simp add: compress_postings_def decompress_postings_def varint_decode_stream_def
        varint_decode_from.simps)
next
  case False
  with assms have c: "compress_loop L 0 [] = Some blob" by (simp add: compress_postings_def)
  from compress_loop_Some_nonneg [OF c] have nn: "\<forall>d\<in>set (compress_deltas L 0). 0 \<le> d" .
  from compress_loop_bytes [OF nn, of "[]"] c
  have "blob = concat (map varint_bytes (compress_deltas L 0))" by simp
  then show ?thesis
    by (simp add: decompress_postings_def decode_stream_bytes [OF nn] decompress_loop_deltas)
qed

text \<open>
  What a database left by \<open>build_index\<close> satisfies.
\<close>

lemma build_index_cases:
  assumes "build_index sha256 self chain = Some (Inr db)"
  obtains st where
    "fold_err (index_block sha256 self) chain \<lparr>shard_postings = [], shard_blooms = []\<rparr> = Inr st"
    and "flush_shards self (shard_blooms st) (shard_postings st) \<lparr>shards = [], postings = []\<rparr>
           = Some (Inr db)"
  using assms by (auto simp: build_index_def split: sum.splits)

lemma build_shard_ids:
  assumes build: "build_index sha256 self chain = Some (Inr db)"
    and len: "\<forall>x. length (sha256 x) = 32"
  shows "distinct (map shard_id (shards db))"
proof -
  from build obtain st where
    scan: "fold_err (index_block sha256 self) chain \<lparr>shard_postings = [], shard_blooms = []\<rparr> = Inr st"
    and flush: "flush_shards self (shard_blooms st) (shard_postings st) \<lparr>shards = [], postings = []\<rparr>
           = Some (Inr db)"
    by (rule build_index_cases)
  from scan_inv_result [OF scan len] have "distinct (map fst (shard_postings st))"
    by (simp add: scan_inv_def)
  with flush_shards_result [OF flush] show ?thesis by simp
qed

lemma build_postings_rows:
  assumes build: "build_index sha256 self chain = Some (Inr db)"
    and len: "\<forall>x. length (sha256 x) = 32"
    and row: "((key, sid), blob) \<in> set (postings db)"
  shows "key \<in> batch_keys chain \<and>
         (\<exists>L. decompress_postings blob = Inr L \<and> distinct L \<and>
              (\<forall>b\<in>set L. b div shard_size self = sid))"
proof -
  from build obtain st where
    scan: "fold_err (index_block sha256 self) chain \<lparr>shard_postings = [], shard_blooms = []\<rparr> = Inr st"
    and flush: "flush_shards self (shard_blooms st) (shard_postings st) \<lparr>shards = [], postings = []\<rparr>
           = Some (Inr db)"
    by (rule build_index_cases)
  from flush_shards_result [OF flush] row obtain posts blocks
    where sp: "(sid, posts) \<in> set (shard_postings st)" and kb: "(key, blocks) \<in> set posts"
      and c: "compress_postings (sorted_list_of_set (set blocks)) = Some blob"
    by fastforce
  from scan_inv_result [OF scan len] sp kb
  have k: "key \<in> batch_keys chain" and b: "\<forall>b\<in>set blocks. b div shard_size self = sid"
    unfolding scan_inv_def by blast+
  from compress_Some_roundtrip [OF c]
  have "decompress_postings blob = Inr (sorted_list_of_set (set blocks))" .
  with k b show ?thesis by auto
qed

lemma build_safe:
  assumes build: "build_index sha256 self chain = Some (Inr db)"
    and len: "\<forall>x. length (sha256 x) = 32"
    and rows: "shards db \<noteq> []"
  shows "bloom_k self \<le> 0 \<or> 0 < bloom_m self"
proof (rule ccontr)
  assume "\<not> (bloom_k self \<le> 0 \<or> 0 < bloom_m self)"
  then have deg: "0 < bloom_k self" "bloom_m self \<le> 0" by simp_all
  from build obtain st where
    scan: "fold_err (index_block sha256 self) chain \<lparr>shard_postings = [], shard_blooms = []\<rparr> = Inr st"
    and flush: "flush_shards self (shard_blooms st) (shard_postings st) \<lparr>shards = [], postings = []\<rparr>
           = Some (Inr db)"
    by (rule build_index_cases)
  from flush_shards_result [OF flush] rows have "shard_postings st \<noteq> []" by auto
  then obtain sid posts rest where sp: "shard_postings st = (sid, posts) # rest"
    by (cases "shard_postings st") auto
  from flush [unfolded sp] obtain bf bloom_bytes
    where bf: "map_of (shard_blooms st) sid = Some bf" and tb: "to_bytes bf = Inr bloom_bytes"
    by (rule flush_shards_cases)
  from scan_inv_result [OF scan len] sp bf deg
  have "bit (bitarr bf) 0" and "bf_m bf = bloom_m self"
    unfolding scan_inv_def by fastforce+
  with deg to_bytes_degenerate [of bf] tb show False by simp
qed

lemma build_shard_tests:
  assumes build: "build_index sha256 self chain = Some (Inr db)"
    and len: "\<forall>x. length (sha256 x) = 32"
  shows "\<forall>r\<in>set (shards db). \<exists>b. shard_test sha256 self key r = Inr b"
proof
  fix r
  assume "r \<in> set (shards db)"
  then have "shards db \<noteq> []" by auto
  from build_safe [OF build len this] len show "\<exists>b. shard_test sha256 self key r = Inr b"
    unfolding shard_test_def by (intro contains_total) (simp_all add: from_bytes_def)
qed

lemma build_shard_fetch:
  assumes build: "build_index sha256 self chain = Some (Inr db)"
    and len: "\<forall>x. length (sha256 x) = 32"
  shows "\<exists>L. shard_fetch (postings db) key sid = Inr L \<and> distinct L \<and>
             (\<forall>b\<in>set L. b div shard_size self = sid) \<and>
             (key \<notin> batch_keys chain \<longrightarrow> L = [])"
proof (cases "map_of (postings db) (key, sid)")
  case None
  then show ?thesis by (simp add: shard_fetch_def)
next
  case (Some blob)
  then have "((key, sid), blob) \<in> set (postings db)" by (rule map_of_SomeD)
  from build_postings_rows [OF build len this] Some show ?thesis
    by (auto simp: shard_fetch_def)
qed

lemma distinct_concat_shards:
  "distinct sids \<Longrightarrow> \<forall>s\<in>set sids. distinct (f s) \<and> (\<forall>b\<in>set (f s). g b = s) \<Longrightarrow>
   distinct (concat (map f sids))"
  by (induction sids) auto

lemma build_postings_for:
  assumes build: "build_index sha256 self chain = Some (Inr db)"
    and len: "\<forall>x. length (sha256 x) = 32"
  shows "\<exists>sids. distinct sids \<and>
           postings_for sha256 self db key
             = Inr (sort (concat (map (shard_blocks (postings db) key) sids)))"
proof -
  let ?sids = "map shard_id (filter (\<lambda>r. shard_test sha256 self key r = Inr True) (shards db))"
  have c: "candidates_loop sha256 self key (shards db) [] = Inr ?sids"
    using candidates_loop_ok [OF build_shard_tests [OF build len], of key "[]"] by simp
  have "\<forall>s\<in>set ?sids. \<exists>blocks. shard_fetch (postings db) key s = Inr blocks"
    using build_shard_fetch [OF build len, of key] by blast
  from fetch_loop_ok [OF this, of "[]"]
  have f: "fetch_loop (postings db) key ?sids []
           = Inr (concat (map (shard_blocks (postings db) key) ?sids))"
    by simp
  have "distinct ?sids"
    using build_shard_ids [OF build len] by (rule distinct_map_filter)
  with c f show ?thesis
    by (auto simp: postings_for_def)
qed

text \<open>
  Claim C2. For every key and every database that \<open>build_index\<close> leaves (with a
  digest function of 32-byte digests, as SHA-256 is), in whatever order \<open>rows\<close> the
  store enumerates the shard rows, \<open>postings_for\<close> returns a list, and the list is
  strictly ascending and duplicate-free.
\<close>

theorem postings_for_strictly_ascending:
  "build_index sha256 self chain = Some (Inr db) \<Longrightarrow> \<forall>x. length (sha256 x) = 32 \<Longrightarrow>
   mset rows = mset (shards db) \<Longrightarrow>
   \<exists>blocks. postings_for sha256 self (db\<lparr>shards := rows\<rparr>) key = Inr blocks \<and>
            sorted_wrt (<) blocks \<and> distinct blocks"
proof -
  assume build: "build_index sha256 self chain = Some (Inr db)"
    and len: "\<forall>x. length (sha256 x) = 32"
    and perm: "mset rows = mset (shards db)"
  from build_postings_for [OF build len, of key] obtain sids
    where d: "distinct sids"
      and p: "postings_for sha256 self db key
                = Inr (sort (concat (map (shard_blocks (postings db) key) sids)))"
    by blast
  have "\<forall>s\<in>set sids. distinct (shard_blocks (postings db) key s) \<and>
          (\<forall>b\<in>set (shard_blocks (postings db) key s). b div shard_size self = s)"
  proof
    fix s
    assume "s \<in> set sids"
    from build_shard_fetch [OF build len, of key s]
    show "distinct (shard_blocks (postings db) key s) \<and>
          (\<forall>b\<in>set (shard_blocks (postings db) key s). b div shard_size self = s)"
      by (auto simp: shard_blocks_def)
  qed
  with d have "distinct (concat (map (shard_blocks (postings db) key) sids))"
    by (rule distinct_concat_shards)
  then have "sorted_wrt (<) (sort (concat (map (shard_blocks (postings db) key) sids)))"
    and "distinct (sort (concat (map (shard_blocks (postings db) key) sids)))"
    by (simp_all add: strict_sorted_iff)
  with p postings_for_perm [OF perm, of sha256 self key] show ?thesis by simp
qed

text \<open>
  Witness for C2: the key \<open>A\<close> on \<open>demo_db\<close>, with postings in two shards, the shard
  rows enumerated in reverse.
\<close>

theorem postings_for_strictly_ascending_witness:
  "build_index demo_digest demo_indexer demo_chain = Some (Inr demo_db) \<and>
   (\<forall>x. length (demo_digest x) = 32) \<and>
   mset (rev (shards demo_db)) = mset (shards demo_db) \<and>
   postings_for demo_digest demo_indexer (demo_db\<lparr>shards := rev (shards demo_db)\<rparr>) ''A''
     = Inr [0, 202] \<and>
   sorted_wrt (<) [0, 202 :: int] \<and> distinct [0, 202 :: int]"
proof -
  have perm: "mset (rev (shards demo_db)) = mset (shards demo_db)" by simp
  have v: "postings_for demo_digest demo_indexer (demo_db\<lparr>shards := rev (shards demo_db)\<rparr>) ''A''
             = Inr [0, 202]"
    by code_simp
  from postings_for_strictly_ascending [OF demo_build demo_digest_length perm, of "''A''"]
    demo_build demo_digest_length perm v
  show ?thesis by simp
qed

text \<open>
  Claim C8. For every key that does not occur in the batch the index was built from,
  \<open>postings_for\<close> returns the empty list and raises nothing, whatever the filters
  report and in whatever order \<open>rows\<close> the store enumerates the shard rows.
\<close>

theorem postings_for_unknown_key:
  "build_index sha256 self chain = Some (Inr db) \<Longrightarrow> \<forall>x. length (sha256 x) = 32 \<Longrightarrow>
   mset rows = mset (shards db) \<Longrightarrow> key \<notin> batch_keys chain \<Longrightarrow>
   postings_for sha256 self (db\<lparr>shards := rows\<rparr>) key = Inr []"
proof -
  assume build: "build_index sha256 self chain = Some (Inr db)"
    and len: "\<forall>x. length (sha256 x) = 32"
    and perm: "mset rows = mset (shards db)"
    and key: "key \<notin> batch_keys chain"
  from build_postings_for [OF build len, of key] obtain sids
    where p: "postings_for sha256 self db key
                = Inr (sort (concat (map (shard_blocks (postings db) key) sids)))"
    by blast
  have "shard_blocks (postings db) key s = []" for s
    using build_shard_fetch [OF build len, of key s] key by (auto simp: shard_blocks_def)
  then have "concat (map (shard_blocks (postings db) key) sids) = []" by simp
  with p postings_for_perm [OF perm, of sha256 self key] show ?thesis by simp
qed

text \<open>
  Witness for C8: the key \<open>u\<close> is not in \<open>demo_chain\<close>, the filter of shard 0 reports
  it present (a false positive), and \<open>postings_for\<close> returns the empty list.
\<close>

theorem postings_for_unknown_key_witness:
  "build_index demo_digest demo_indexer demo_chain = Some (Inr demo_db) \<and>
   (\<forall>x. length (demo_digest x) = 32) \<and>
   mset (rev (shards demo_db)) = mset (shards demo_db) \<and>
   ''u'' \<notin> batch_keys demo_chain \<and>
   shard_test demo_digest demo_indexer ''u'' (hd (shards demo_db)) = Inr True \<and>
   postings_for demo_digest demo_indexer (demo_db\<lparr>shards := rev (shards demo_db)\<rparr>) ''u''
     = Inr []"
proof -
  have perm: "mset (rev (shards demo_db)) = mset (shards demo_db)" by simp
  have k: "''u'' \<notin> batch_keys demo_chain"
    by (simp add: batch_keys_def demo_chain_def tx_keys_def)
  have fp: "shard_test demo_digest demo_indexer ''u'' (hd (shards demo_db)) = Inr True"
    by code_simp
  from postings_for_unknown_key [OF demo_build demo_digest_length perm k]
    demo_build demo_digest_length perm k fp
  show ?thesis by simp
qed

section \<open>Proofs: boolean queries\<close>

lemma lists_loop_length:
  "lists_loop sha256 self db ks acc = Inr lists' \<Longrightarrow> length lists' = length acc + length ks"
  by (induction ks arbitrary: acc) (auto split: sum.splits)

lemma intersect_sorted_Nil: "intersect_sorted a [] = []"
  by (simp add: intersect_sorted_def intersect_loop.simps [of a "[]"])

text \<open>
  The code agrees with the specification unless both key lists are given and the union
  of the \<open>any_of\<close> postings is empty.
\<close>

lemma boolean_query_agrees:
  assumes "any_of = [] \<or> must_have = [] \<or>
           (\<exists>x xs. any_loop sha256 self db any_of [] = Inr (x # xs))"
  shows "boolean_query sha256 self db must_have any_of
         = boolean_query_spec sha256 self db must_have any_of"
proof (cases "lists_loop sha256 self db must_have []")
  case (Inl e)
  then show ?thesis by (simp add: boolean_query_def boolean_query_spec_def)
next
  case lists: (Inr lists')
  from lists_loop_length [OF lists] have len: "lists' = [] \<longleftrightarrow> must_have = []"
    by (cases lists'; cases must_have) simp_all
  show ?thesis
  proof (cases "any_loop sha256 self db any_of []")
    case (Inl e)
    with lists show ?thesis by (simp add: boolean_query_def boolean_query_spec_def)
  next
    case (Inr optional)
    with assms lists len show ?thesis
      by (cases lists')
        (auto simp: boolean_query_def boolean_query_spec_def Let_def intersect_sorted_Nil)
  qed
qed

text \<open>
  Whatever the digest function and the database: when \<open>must_have\<close> is given and the union
  of the \<open>any_of\<close> postings is empty, the code returns \<open>required\<close>.
\<close>

lemma boolean_query_empty_union_general:
  assumes "lists_loop sha256 self db must_have [] = Inr (cur # rest)"
    and "any_loop sha256 self db any_of [] = Inr []"
  shows "boolean_query sha256 self db must_have any_of = Inr (foldl intersect_sorted cur rest)"
  using assms by (simp add: boolean_query_def)

text \<open>
  Claim C1, at a failing input. On the index built from \<open>demo_chain\<close>, the query
  \<open>must_have = [A]\<close>, \<open>any_of = [Z]\<close> returns the postings of \<open>A\<close>, while the
  intersection of the required list with the empty union of \<open>any_of\<close>, which the claim
  states, is empty.
\<close>

theorem boolean_query_empty_union:
  "build_index demo_digest demo_indexer demo_chain = Some (Inr demo_db) \<and>
   postings_for demo_digest demo_indexer demo_db ''A'' = Inr [0, 202] \<and>
   postings_for demo_digest demo_indexer demo_db ''Z'' = Inr [] \<and>
   boolean_query demo_digest demo_indexer demo_db [''A''] [''Z''] = Inr [0, 202] \<and>
   boolean_query_spec demo_digest demo_indexer demo_db [''A''] [''Z''] = Inr []"
proof -
  have a: "postings_for demo_digest demo_indexer demo_db ''A'' = Inr [0, 202]" by code_simp
  have z: "postings_for demo_digest demo_indexer demo_db ''Z'' = Inr []" by code_simp
  have q: "boolean_query demo_digest demo_indexer demo_db [''A''] [''Z''] = Inr [0, 202]"
    by code_simp
  have s: "boolean_query_spec demo_digest demo_indexer demo_db [''A''] [''Z''] = Inr []"
    by code_simp
  from demo_build a z q s show ?thesis by simp
qed

section \<open>Proofs: termination of the encoder and of its callers\<close>

lemma index_key_nonneg:
  assumes step: "index_key sha256 sid blknum key st = Inr st'"
    and inv: "pending_nonneg st" and b: "0 \<le> blknum"
  shows "pending_nonneg st'"
proof -
  from step obtain bf bf' where
    sp: "shard_postings st' =
           AList.map_default sid [(key, [blknum])]
             (AList.map_default key [blknum] (\<lambda>blocks. blocks @ [blknum])) (shard_postings st)"
    by (rule index_key_cases)
  have "\<forall>x\<in>set blocks. 0 \<le> x"
    if in_sp: "(s, posts) \<in> set (shard_postings st')" and in_posts: "(k, blocks) \<in> set posts"
    for s posts k blocks
  proof -
    from in_sp [unfolded sp, THEN set_map_default]
    consider "(s, posts) \<in> set (shard_postings st)"
      | "posts = [(key, [blknum])]"
      | posts0 where "(sid, posts0) \<in> set (shard_postings st)"
          "posts = AList.map_default key [blknum] (\<lambda>blocks. blocks @ [blknum]) posts0"
      by blast
    then show ?thesis
    proof cases
      case 1
      with inv in_posts show ?thesis unfolding pending_nonneg_def by blast
    next
      case 2
      with in_posts b show ?thesis by simp
    next
      case 3
      from in_posts [unfolded 3(2), THEN set_map_default]
      consider "(k, blocks) \<in> set posts0"
        | "blocks = [blknum]"
        | blocks0 where "(key, blocks0) \<in> set posts0" "blocks = blocks0 @ [blknum]"
        by blast
      then show ?thesis
      proof cases
        case 1
        with inv 3(1) show ?thesis unfolding pending_nonneg_def by blast
      next
        case 2
        with b show ?thesis by simp
      next
        case 3
        from inv \<open>(sid, posts0) \<in> set (shard_postings st)\<close> 3(1)
        have "\<forall>x\<in>set blocks0. 0 \<le> x" unfolding pending_nonneg_def by blast
        with 3(2) b show ?thesis by simp
      qed
    qed
  qed
  then show ?thesis unfolding pending_nonneg_def by blast
qed

lemma index_block_nonneg:
  assumes step: "index_block sha256 self blk st = Inr st'"
    and inv: "pending_nonneg st" and b: "0 \<le> block_number blk"
  shows "pending_nonneg st'"
proof -
  let ?sid = "block_number blk div shard_size self"
  let ?st1 = "if map_of (shard_blooms st) ?sid = None
              then st\<lparr>shard_blooms := shard_blooms st @
                     [(?sid, \<lparr>bf_m = bloom_m self, bf_k = bloom_k self, bitarr = 0\<rparr>)]\<rparr>
              else st"
  from step have fold: "fold_err (index_tx sha256 ?sid (block_number blk)) (transactions blk) ?st1 = Inr st'"
    by (auto simp: index_block_def Let_def split: if_splits)
  have inv1: "pending_nonneg ?st1"
    using inv by (simp add: pending_nonneg_def)
  show ?thesis
  proof (rule fold_err_inv [where P = pending_nonneg, OF fold inv1])
    fix t s s'
    assume s: "pending_nonneg s" and tx: "index_tx sha256 ?sid (block_number blk) t s = Inr s'"
    show "pending_nonneg s'"
    proof (rule fold_err_inv [where P = pending_nonneg])
      show "fold_err (index_key sha256 ?sid (block_number blk)) (tx_keys t) s = Inr s'"
        using tx by (simp add: index_tx_def)
      show "pending_nonneg s" by fact
    next
      fix key u u'
      assume u: "pending_nonneg u" "index_key sha256 ?sid (block_number blk) key u = Inr u'"
      show "pending_nonneg u'" by (rule index_key_nonneg [OF u(2) u(1) b])
    qed
  qed
qed

lemma flush_postings_returns:
  "\<forall>(key, blocks)\<in>set posts. \<forall>b\<in>set blocks. 0 \<le> b \<Longrightarrow>
   \<exists>tbl'. flush_postings sid posts tbl = Some tbl'"
proof (induction posts arbitrary: tbl)
  case Nil
  show ?case by simp
next
  case (Cons p posts)
  obtain addr blocks where p: "p = (addr, blocks)" by (cases p)
  with Cons.prems have "\<forall>x\<in>set (sorted_list_of_set (set blocks)). 0 \<le> x" by simp
  from compress_decompress(1) [OF _ this] obtain blob
    where "compress_postings (sorted_list_of_set (set blocks)) = Some blob" by simp
  moreover from Cons.prems have "\<forall>(key, blocks)\<in>set posts. \<forall>b\<in>set blocks. 0 \<le> b" by simp
  from Cons.IH [OF this]
  have "\<exists>tbl'. flush_postings sid posts (tbl @ [((addr, sid), blob)]) = Some tbl'" .
  ultimately show ?case by (simp add: p)
qed

lemma flush_shards_returns:
  "\<forall>(sid, posts)\<in>set sp. \<forall>(key, blocks)\<in>set posts. \<forall>b\<in>set blocks. 0 \<le> b \<Longrightarrow>
   \<exists>r. flush_shards self blooms sp db = Some r"
proof (induction sp arbitrary: db)
  case Nil
  show ?case by simp
next
  case (Cons p sp)
  obtain sid posts where p: "p = (sid, posts)" by (cases p)
  with Cons.prems have "\<forall>(key, blocks)\<in>set posts. \<forall>b\<in>set blocks. 0 \<le> b" by simp
  from flush_postings_returns [OF this] obtain tbl
    where tbl: "flush_postings sid posts (postings db) = Some tbl" by blast
  from Cons.prems have rest: "\<forall>(sid, posts)\<in>set sp. \<forall>(key, blocks)\<in>set posts. \<forall>b\<in>set blocks. 0 \<le> b"
    by simp
  show ?case
  proof (cases "map_of blooms sid")
    case None
    then show ?thesis by (simp add: p Let_def)
  next
    case (Some bf)
    show ?thesis
    proof (cases "to_bytes bf")
      case (Inl e)
      with Some show ?thesis by (simp add: p Let_def)
    next
      case (Inr bloom_bytes)
      from Cons.IH [OF rest] obtain r where
        "flush_shards self blooms sp
           \<lparr>shards = shards db @
              [\<lparr>shard_id = sid, start_block = sid * shard_size self,
                end_block = sid * shard_size self + shard_size self - 1,
                bloom = bloom_bytes\<rparr>],
            postings = tbl\<rparr> = Some r"
        by blast
      with Some Inr tbl show ?thesis by (simp add: p Let_def)
    qed
  qed
qed

lemma build_index_returns:
  assumes "\<forall>blk\<in>set chain. 0 \<le> block_number blk"
  shows "\<exists>r. build_index sha256 self chain = Some r"
proof (cases "fold_err (index_block sha256 self) chain \<lparr>shard_postings = [], shard_blooms = []\<rparr>")
  case (Inl e)
  then show ?thesis by (simp add: build_index_def)
next
  case (Inr st)
  have "pending_nonneg st"
  proof (rule fold_err_inv [where P = pending_nonneg, OF Inr])
    show "pending_nonneg \<lparr>shard_postings = [], shard_blooms = []\<rparr>"
      by (simp add: pending_nonneg_def)
  next
    fix blk s s'
    assume "blk \<in> set chain" "pending_nonneg s" "index_block sha256 self blk s = Inr s'"
    with assms show "pending_nonneg s'" by (auto intro: index_block_nonneg [of sha256 self blk s s'])
  qed
  then have "\<forall>(sid, posts)\<in>set (shard_postings st). \<forall>(key, blocks)\<in>set posts. \<forall>b\<in>set blocks. 0 \<le> b"
    unfolding pending_nonneg_def by blast
  from flush_shards_returns [OF this] Inr show ?thesis by (simp add: build_index_def)
qed

text \<open>
  A batch with a negative block number: the scan returns, and \<open>compress_postings\<close>
  never does.
\<close>

lemma build_index_negative_block:
  "build_index demo_digest demo_indexer
     [\<lparr>block_number = - 1,
       transactions = [\<lparr>tx_from = ''A'', tx_to = ''B'', tx_topics = None\<rparr>]\<rparr>] = None"
proof -
  have c: "compress_postings (sorted_list_of_set (set [- 1])) = None"
    by (simp add: compress_postings_def varint_encode_def varint_encode_negative)
  have tb: "to_bytes \<lparr>bf_m = 64, bf_k = 6, bitarr = 7\<rparr> = Inr [0, 0, 0, 0, 0, 0, 0, 7]"
    by code_simp
  have scan: "fold_err (index_block demo_digest demo_indexer)
     [\<lparr>block_number = - 1,
       transactions = [\<lparr>tx_from = ''A'', tx_to = ''B'', tx_topics = None\<rparr>]\<rparr>]
     \<lparr>shard_postings = [], shard_blooms = []\<rparr>
     = Inr \<lparr>shard_postings = [(- 1, [(''A'', [- 1]), (''B'', [- 1])])],
            shard_blooms = [(- 1, \<lparr>bf_m = 64, bf_k = 6, bitarr = 7\<rparr>)]\<rparr>"
    by code_simp
  have fp: "flush_postings (- 1) [(''A'', [- 1]), (''B'', [- 1])] [] = None"
    by (simp only: flush_postings.simps Let_def c option.case)
  have "flush_shards demo_indexer [(- 1, \<lparr>bf_m = 64, bf_k = 6, bitarr = 7\<rparr>)]
          [(- 1, [(''A'', [- 1]), (''B'', [- 1])])] \<lparr>shards = [], postings = []\<rparr> = None"
    by (simp add: tb fp del: flush_postings.simps)
  then show ?thesis
    by (simp add: build_index_def scan del: flush_shards.simps fold_err.simps)
qed

text \<open>
  Claim C9, as stated, at a failing input. The claim says that \<open>compress_postings\<close> on
  sorted ascending input passes only non-negative arguments to \<open>varint_encode\<close>. The
  list \<open>[- 5, 3]\<close> is sorted; the first delta is \<open>- 5 - 0\<close>, \<open>varint_encode\<close> never
  returns on it, and so \<open>compress_postings\<close> never returns.
\<close>

theorem compress_postings_sorted_negative:
  "sorted [- 5, 3 :: int] \<and> compress_deltas [- 5, 3] 0 = [- 5, 8] \<and>
   varint_encode (- 5) = None \<and> compress_postings [- 5, 3] = None"
  by (simp add: compress_postings_def varint_encode_def varint_encode_negative)

text \<open>
  Claim C9, amended. \<open>varint_encode\<close> returns for every non-negative \<open>n\<close>; it never
  returns for a negative \<open>n\<close>; on a sorted list of non-negative block numbers every
  argument that \<open>compress_postings\<close> passes to \<open>varint_encode\<close> is non-negative (the
  first delta is the first block number), so \<open>compress_postings\<close> returns; and
  \<open>build_index\<close>, its only caller, returns or raises on every batch of non-negative
  block numbers.
\<close>

theorem varint_encode_terminates:
  "(0 \<le> n \<longrightarrow> (\<exists>bs. varint_encode n = Some bs)) \<and>
   (n < 0 \<longrightarrow> varint_encode n = None) \<and>
   (sorted L \<and> (\<forall>x\<in>set L. 0 \<le> x) \<longrightarrow>
      (\<forall>d\<in>set (compress_deltas L 0). 0 \<le> d) \<and> (\<exists>bs. compress_postings L = Some bs)) \<and>
   ((\<forall>blk\<in>set chain. 0 \<le> block_number blk) \<longrightarrow>
      (\<exists>r. build_index sha256 self chain = Some r))"
proof (intro conjI impI)
  assume "0 \<le> n"
  then show "\<exists>bs. varint_encode n = Some bs" by (simp add: varint_encode_bytes)
next
  assume "n < 0"
  then show "varint_encode n = None" by (simp add: varint_encode_def varint_encode_negative)
next
  assume "sorted L \<and> (\<forall>x\<in>set L. 0 \<le> x)"
  then show "\<forall>d\<in>set (compress_deltas L 0). 0 \<le> d"
    using compress_deltas_nonneg [of L 0] by blast
next
  assume "sorted L \<and> (\<forall>x\<in>set L. 0 \<le> x)"
  then show "\<exists>bs. compress_postings L = Some bs"
    using compress_decompress(1) [of L] by blast
next
  assume "\<forall>blk\<in>set chain. 0 \<le> block_number blk"
  then show "\<exists>r. build_index sha256 self chain = Some r"
    by (rule build_index_returns)
qed

text \<open>
  Witness for C9 at \<open>n = 300\<close>, \<open>n = - 1\<close>, \<open>L = [3, 5, 300]\<close> and \<open>demo_chain\<close>.
\<close>

theorem varint_encode_terminates_witness:
  "varint_encode 300 = Some [0xAC, 0x02] \<and> varint_encode (- 1) = None \<and>
   sorted [3, 5, 300 :: int] \<and> compress_deltas [3, 5, 300] 0 = [3, 2, 295] \<and>
   compress_postings [3, 5, 300] = Some [3, 2, 0xA7, 0x02] \<and>
   build_index demo_digest demo_indexer demo_chain = Some (Inr demo_db)"
proof -
  have c: "compress_postings [3, 5, 300] = Some [3, 2, 0xA7, 0x02]"
    by code_simp
  have d: "varint_encode 300 = Some [0xAC, 0x02]"
    by code_simp
  have n: "varint_encode (- 1) = None"
    using varint_encode_terminates [of "- 1" "[]" "[]"] by simp
  have p: "\<exists>bs. varint_encode 300 = Some bs"
    using varint_encode_terminates [of 300 "[3, 5, 300]" demo_chain] by simp
  from c d n p demo_build show ?thesis
    by simp
qed

end
